theory Spec2Isabelle
  imports Complex_Main "HOL-Library.Multiset"
begin

section \<open>Data model of \<^verbatim>\<open>claude_parallel_executor.py\<close>\<close>

text \<open>
  The dataclass \<^verbatim>\<open>ParallelTask\<close>.  The field \<^verbatim>\<open>id\<close> is called \<open>id_task\<close> here,
  because \<open>id\<close> is the identity function of HOL.  Python's unbounded integers are \<open>int\<close>;
  the float of \<^verbatim>\<open>timeout\<close> is idealised as a real number (no claim depends on rounding).
  \<^verbatim>\<open>__post_init__\<close> replaces a \<^verbatim>\<open>None\<close> list of dependencies by the empty list, so the
  field is a plain list.
\<close>

record ParallelTask =
  id_task :: string
  prompt :: string
  description :: string
  priority :: int
  max_turns :: int
  timeout :: "real option"
  dependencies :: "string list"
  tools_allowed :: "string list option"
  tools_blocked :: "string list option"

text \<open>The dataclass \<^verbatim>\<open>TaskResult\<close>.\<close>

record TaskResult =
  task_id :: string
  success :: bool
  result :: string
  error :: "string option"
  execution_time :: real
  tokens_used :: "int option"

text \<open>
  What \<^verbatim>\<open>self.console.print\<close> is called with.  The two lines the scheduler prints are
  \<^item> \<open>CircularDependencyWarning n\<close>: the line \<^verbatim>\<open>Warning: Circular dependency detected.
    Running remaining n tasks anyway.\<close> of \<^verbatim>\<open>_resolve_dependencies\<close>;
  \<^item> \<open>ExecutingBatch i n\<close>: the line \<^verbatim>\<open>Executing Batch i/n\<close> of
    \<^verbatim>\<open>_execute_with_progress\<close>.
\<close>

datatype console_line = CircularDependencyWarning nat | ExecutingBatch nat nat

text \<open>
  The state of a \<^verbatim>\<open>ParallelTaskExecutor\<close>: the clamped \<^verbatim>\<open>max_parallel\<close>, the lines
  printed on its console so far, and the dictionary \<^verbatim>\<open>completed_tasks\<close>.  The dictionary
  \<^verbatim>\<open>running_tasks\<close> is never read or written after construction and is left out.
\<close>

record executor =
  max_parallel :: int
  console :: "console_line list"
  completed_tasks :: "string \<rightharpoonup> TaskResult"

text \<open>\<^verbatim>\<open>__init__\<close>: \<^verbatim>\<open>self.max_parallel = min(max_parallel, 10)\<close>.\<close>

definition executor_init :: "int \<Rightarrow> executor" where
  "executor_init mp = \<lparr>max_parallel = min mp 10, console = [], completed_tasks = Map.empty\<rparr>"

section \<open>\<^verbatim>\<open>_resolve_dependencies\<close>\<close>

text \<open>
  The local state of the \<^verbatim>\<open>while\<close> loop: the set \<^verbatim>\<open>completed\<close>, the list \<^verbatim>\<open>batches\<close>,
  and the lines printed so far.  (The dictionary \<^verbatim>\<open>task_map\<close> is built and never read.)
\<close>

record resolver_state =
  completed :: "string set"
  batches :: "ParallelTask list list"
  printed :: "console_line list"

text \<open>The loop condition \<^verbatim>\<open>len(completed) < len(tasks)\<close>.\<close>

definition resolve_cond :: "ParallelTask list \<Rightarrow> resolver_state \<Rightarrow> bool" where
  "resolve_cond tasks s = (card (completed s) < length tasks)"

text \<open>
  The tasks that can run: not yet in \<^verbatim>\<open>completed\<close>, and
  \<^verbatim>\<open>all(dep in completed for dep in task.dependencies)\<close>.
\<close>

definition find_ready :: "ParallelTask list \<Rightarrow> string set \<Rightarrow> ParallelTask list" where
  "find_ready tasks done =
     filter (\<lambda>task. id_task task \<notin> done \<and> list_all (\<lambda>dep. dep \<in> done) (dependencies task)) tasks"

text \<open>\<^verbatim>\<open>remaining = [task for task in tasks if task.id not in completed]\<close>.\<close>

definition remaining_tasks :: "ParallelTask list \<Rightarrow> string set \<Rightarrow> ParallelTask list" where
  "remaining_tasks tasks done = filter (\<lambda>task. id_task task \<notin> done) tasks"

text \<open>
  \<^verbatim>\<open>ready_tasks.sort(key=lambda x: x.priority, reverse=True)\<close>.  Python's sort is stable,
  also with \<^verbatim>\<open>reverse=True\<close>: elements with equal keys keep their order.  The stable
  insertion sort \<open>sort_key\<close> on the negated key is that order.
\<close>

definition sort_by_priority :: "ParallelTask list \<Rightarrow> ParallelTask list" where
  "sort_by_priority ts = sort_key (\<lambda>x. - priority x) ts"

text \<open>One iteration of the loop body.\<close>

definition resolve_step :: "ParallelTask list \<Rightarrow> resolver_state \<Rightarrow> resolver_state" where
  "resolve_step tasks s =
     (let ready_tasks = find_ready tasks (completed s);
          forced = (ready_tasks = []);
          remaining = remaining_tasks tasks (completed s);
          out = (if forced then printed s @ [CircularDependencyWarning (length remaining)]
                 else printed s);
          ready_tasks = (if forced then remaining else ready_tasks);
          ready_tasks = sort_by_priority ready_tasks
      in \<lparr>completed = completed s \<union> set (map id_task ready_tasks),
          batches = batches s @ [ready_tasks],
          printed = out\<rparr>)"

text \<open>
  The loop itself.  It may run forever, so it is a partial function: \<open>None\<close> is the loop
  that never leaves.  (Memory is unbounded here; a real run that never leaves the loop
  appends one batch per iteration until the interpreter runs out of memory.)
\<close>

partial_function (option) resolve_loop ::
  "ParallelTask list \<Rightarrow> resolver_state \<Rightarrow> resolver_state option" where
  "resolve_loop tasks s =
     (if resolve_cond tasks s then resolve_loop tasks (resolve_step tasks s) else Some s)"

text \<open>
  \<^verbatim>\<open>_resolve_dependencies\<close>: the batches, and the executor whose console has the warnings.
\<close>

definition resolve_init :: "executor \<Rightarrow> resolver_state" where
  "resolve_init ex = \<lparr>completed = {}, batches = [], printed = console ex\<rparr>"

definition resolve_dependencies ::
  "executor \<Rightarrow> ParallelTask list \<Rightarrow> (ParallelTask list list \<times> executor) option" where
  "resolve_dependencies ex tasks =
     (case resolve_loop tasks (resolve_init ex) of
        None \<Rightarrow> None
      | Some s \<Rightarrow> Some (batches s, ex\<lparr>console := printed s\<rparr>))"

section \<open>The executor capability and \<^verbatim>\<open>execute_single_task\<close>\<close>

text \<open>
  The capability \<^verbatim>\<open>query\<close> of the SDK is external.  What the scheduler observes of one
  call is the sequence of messages it yields and how the iteration ends.  The scheduler
  inspects a message by its attributes:
  \<^item> \<open>ContentMessage blocks\<close>: the message has an iterable \<^verbatim>\<open>content\<close>; a block is a
    \<open>TextBlock\<close> when it has the attribute \<^verbatim>\<open>text\<close>;
  \<^item> \<open>ResultMessage r\<close>: no such \<^verbatim>\<open>content\<close>, but an attribute \<^verbatim>\<open>result\<close>
    (a string or \<^verbatim>\<open>None\<close>);
  \<^item> \<open>OtherMessage\<close>: neither.
\<close>

datatype block = TextBlock string | OtherBlock

datatype message = ContentMessage "block list" | ResultMessage "string option" | OtherMessage

text \<open>
  How the \<^verbatim>\<open>async for\<close> over the capability ends: the iterator is exhausted, or it raises
  \<^verbatim>\<open>asyncio.TimeoutError\<close>, or it raises another \<^verbatim>\<open>Exception\<close> \<open>e\<close>, kept as the text
  \<^verbatim>\<open>str(e)\<close>.  A call that never ends, and a cancellation (which is no \<^verbatim>\<open>Exception\<close>),
  are outside this model.
\<close>

datatype query_end = Completed | RaisedTimeoutError | RaisedException string

text \<open>
  One call of the capability as the scheduler sees it: the messages received, the end, and
  the two readings of \<^verbatim>\<open>time.time()\<close>: \<open>started\<close> when \<^verbatim>\<open>execute_single_task\<close> is
  entered, \<open>stopped\<close> when the iteration has ended (normally or by an exception).
\<close>

record query_run =
  messages :: "message list"
  ending :: query_end
  started :: real
  stopped :: real

text \<open>\<^verbatim>\<open>str(message.result)\<close>: the string itself, or \<^verbatim>\<open>'None'\<close>.\<close>

definition py_str :: "string option \<Rightarrow> string" where
  "py_str r = (case r of None \<Rightarrow> ''None'' | Some txt \<Rightarrow> txt)"

text \<open>What one message appends to \<^verbatim>\<open>result_parts\<close>.\<close>

fun block_parts :: "block \<Rightarrow> string list" where
  "block_parts (TextBlock txt) = [txt]"
| "block_parts OtherBlock = []"

fun message_parts :: "message \<Rightarrow> string list" where
  "message_parts (ContentMessage blocks) = concat (map block_parts blocks)"
| "message_parts (ResultMessage r) = [py_str r]"
| "message_parts OtherMessage = []"

definition result_parts :: "message list \<Rightarrow> string list" where
  "result_parts msgs = concat (map message_parts msgs)"

text \<open>\<^verbatim>\<open>sep.join(parts)\<close>.\<close>

fun py_join :: "string \<Rightarrow> string list \<Rightarrow> string" where
  "py_join sep [] = []"
| "py_join sep [x] = x"
| "py_join sep (x # y # ys) = x @ sep @ py_join sep (y # ys)"

text \<open>
  \<^verbatim>\<open>execute_single_task\<close>.  The prompt, \<^verbatim>\<open>max_turns\<close> and the tool lists of the task go to the
  capability; what the capability does with them is the parameter \<open>run\<close>.  The calls of
  \<^verbatim>\<open>progress.update\<close> only change the display and are left out.  The field
  \<^verbatim>\<open>task.timeout\<close> is not read.
\<close>

definition execute_single_task :: "ParallelTask \<Rightarrow> query_run \<Rightarrow> TaskResult" where
  "execute_single_task task run =
     (case ending run of
        Completed \<Rightarrow>
          \<lparr>task_id = id_task task, success = True,
           result = py_join [CHR 0x0A] (result_parts (messages run)), error = None,
           execution_time = stopped run - started run, tokens_used = None\<rparr>
      | RaisedTimeoutError \<Rightarrow>
          \<lparr>task_id = id_task task, success = False, result = [], error = Some ''Task timeout'',
           execution_time = stopped run - started run, tokens_used = None\<rparr>
      | RaisedException e \<Rightarrow>
          \<lparr>task_id = id_task task, success = False, result = [], error = Some e,
           execution_time = stopped run - started run, tokens_used = None\<rparr>)"

section \<open>Running one batch under the semaphore\<close>

datatype exec_error = ValueError

text \<open>
  \<^verbatim>\<open>asyncio.Semaphore(value)\<close> raises \<^verbatim>\<open>ValueError\<close> for a negative value; otherwise the
  semaphore holds \<open>value\<close> permits.
\<close>

definition semaphore_new :: "int \<Rightarrow> exec_error + int" where
  "semaphore_new v = (if v < 0 then Inl ValueError else Inr v)"

text \<open>
  \<^verbatim>\<open>run_with_semaphore\<close>, once it holds a permit: what \<^verbatim>\<open>asyncio.gather\<close> with
  \<^verbatim>\<open>return_exceptions=True\<close> collects for the task, an exception (\<open>Inl\<close>, its text) or the
  value returned.  \<^verbatim>\<open>execute_single_task\<close> catches every \<^verbatim>\<open>Exception\<close>, so it is always
  the value.
\<close>

definition run_with_semaphore :: "(ParallelTask \<Rightarrow> query_run) \<Rightarrow> ParallelTask \<Rightarrow> string + TaskResult" where
  "run_with_semaphore run task = Inr (execute_single_task task (run task))"

text \<open>
  The interleavings of one \<^verbatim>\<open>asyncio.gather\<close> over \<^verbatim>\<open>run_with_semaphore\<close>: the coroutine
  of a task is \<open>Queued\<close> before \<^verbatim>\<open>async with semaphore\<close> has acquired a permit,
  \<open>InFlight\<close> while it holds its permit and awaits the capability, and \<open>Returned\<close> once the
  block is left, which releases the permit on every exit path.  Acquiring needs a free permit.
\<close>

datatype phase = Queued | InFlight | Returned "string + TaskResult"

record gather_state =
  permits :: int
  phases :: "phase list"

definition gather_init :: "int \<Rightarrow> ParallelTask list \<Rightarrow> gather_state" where
  "gather_init sem batch = \<lparr>permits = sem, phases = replicate (length batch) Queued\<rparr>"

inductive gather_step ::
  "(ParallelTask \<Rightarrow> query_run) \<Rightarrow> ParallelTask list \<Rightarrow> gather_state \<Rightarrow> gather_state \<Rightarrow> bool"
  for run :: "ParallelTask \<Rightarrow> query_run" and batch :: "ParallelTask list" where
  acquire:
    "i < length (phases s) \<Longrightarrow> phases s ! i = Queued \<Longrightarrow> 0 < permits s \<Longrightarrow>
     gather_step run batch s
       (s\<lparr>permits := permits s - 1, phases := (phases s)[i := InFlight]\<rparr>)"
| release:
    "i < length (phases s) \<Longrightarrow> phases s ! i = InFlight \<Longrightarrow>
     gather_step run batch s
       (s\<lparr>permits := permits s + 1,
          phases := (phases s)[i := Returned (run_with_semaphore run (batch ! i))]\<rparr>)"

text \<open>The number of calls of the capability that are in flight.\<close>

definition in_flight :: "gather_state \<Rightarrow> nat" where
  "in_flight s = length (filter (\<lambda>p. p = InFlight) (phases s))"

text \<open>\<^verbatim>\<open>gather\<close> returns when every coroutine has returned.\<close>

definition all_returned :: "gather_state \<Rightarrow> bool" where
  "all_returned s = list_all (\<lambda>p. p \<noteq> Queued \<and> p \<noteq> InFlight) (phases s)"

text \<open>
  The value of \<^verbatim>\<open>await asyncio.gather(...)\<close> for a batch: the results in the order of the
  batch.  With no permit and a task to run, every coroutine waits for ever: \<open>None\<close>.
\<close>

definition gather_batch ::
  "int \<Rightarrow> (ParallelTask \<Rightarrow> query_run) \<Rightarrow> ParallelTask list \<Rightarrow> (string + TaskResult) list option" where
  "gather_batch sem run batch =
     (if batch \<noteq> [] \<and> sem = 0 then None else Some (map (run_with_semaphore run) batch))"

section \<open>\<^verbatim>\<open>_execute_with_progress\<close>, \<^verbatim>\<open>_execute_without_progress\<close>, \<^verbatim>\<open>execute_batch\<close>\<close>

text \<open>The body of \<^verbatim>\<open>for task, result in zip(batch, batch_results)\<close>.\<close>

definition process_result :: "ParallelTask \<Rightarrow> string + TaskResult \<Rightarrow> TaskResult" where
  "process_result task r =
     (case r of
        Inl e \<Rightarrow> \<lparr>task_id = id_task task, success = False, result = [], error = Some e,
                  execution_time = 0, tokens_used = None\<rparr>
      | Inr res \<Rightarrow> res)"

type_synonym results = "string \<rightharpoonup> TaskResult"

fun record_result :: "ParallelTask \<times> (string + TaskResult) \<Rightarrow> results \<times> executor \<Rightarrow> results \<times> executor" where
  "record_result (task, r) (all_results, ex) =
     (all_results(id_task task \<mapsto> process_result task r),
      ex\<lparr>completed_tasks := (completed_tasks ex)(id_task task \<mapsto> process_result task r)\<rparr>)"

text \<open>
  The loop over the batches of \<^verbatim>\<open>_execute_with_progress\<close>, from batch index \<open>idx\<close> on.
  The outer \<open>option\<close> is \<open>None\<close> when the call never returns, \<open>Inl\<close> is a raised error.
  Adding and updating the rows of the progress display is left out.
\<close>

fun execute_with_progress_from ::
  "(ParallelTask \<Rightarrow> query_run) \<Rightarrow> nat \<Rightarrow> nat \<Rightarrow> ParallelTask list list \<Rightarrow> results \<times> executor
     \<Rightarrow> (exec_error + results \<times> executor) option" where
  "execute_with_progress_from run n_batches idx [] st = Some (Inr st)"
| "execute_with_progress_from run n_batches idx (batch # rest) (all_results, ex) =
     (let ex = ex\<lparr>console := console ex @ [ExecutingBatch (idx + 1) n_batches]\<rparr> in
      case semaphore_new (max_parallel ex) of
        Inl e \<Rightarrow> Some (Inl e)
      | Inr sem \<Rightarrow>
          (case gather_batch sem run batch of
             None \<Rightarrow> None
           | Some batch_results \<Rightarrow>
               execute_with_progress_from run n_batches (idx + 1) rest
                 (fold record_result (zip batch batch_results) (all_results, ex))))"

definition execute_with_progress ::
  "executor \<Rightarrow> ParallelTask list list \<Rightarrow> (ParallelTask \<Rightarrow> query_run)
     \<Rightarrow> (exec_error + results \<times> executor) option" where
  "execute_with_progress ex task_batches run =
     execute_with_progress_from run (length task_batches) 0 task_batches (Map.empty, ex)"

fun execute_without_progress_from ::
  "(ParallelTask \<Rightarrow> query_run) \<Rightarrow> ParallelTask list list \<Rightarrow> results \<times> executor
     \<Rightarrow> (exec_error + results \<times> executor) option" where
  "execute_without_progress_from run [] st = Some (Inr st)"
| "execute_without_progress_from run (batch # rest) (all_results, ex) =
     (case semaphore_new (max_parallel ex) of
        Inl e \<Rightarrow> Some (Inl e)
      | Inr sem \<Rightarrow>
          (case gather_batch sem run batch of
             None \<Rightarrow> None
           | Some batch_results \<Rightarrow>
               execute_without_progress_from run rest
                 (fold record_result (zip batch batch_results) (all_results, ex))))"

definition execute_without_progress ::
  "executor \<Rightarrow> ParallelTask list list \<Rightarrow> (ParallelTask \<Rightarrow> query_run)
     \<Rightarrow> (exec_error + results \<times> executor) option" where
  "execute_without_progress ex task_batches run =
     execute_without_progress_from run task_batches (Map.empty, ex)"

text \<open>
  \<^verbatim>\<open>execute_batch\<close>.  The parameter \<open>run\<close> gives, for every task, what its call of the
  capability does.
\<close>

definition execute_batch ::
  "executor \<Rightarrow> ParallelTask list \<Rightarrow> bool \<Rightarrow> (ParallelTask \<Rightarrow> query_run)
     \<Rightarrow> (exec_error + results \<times> executor) option" where
  "execute_batch ex tasks show_progress run =
     (case resolve_dependencies ex tasks of
        None \<Rightarrow> None
      | Some (sorted_tasks, ex') \<Rightarrow>
          if show_progress then execute_with_progress ex' sorted_tasks run
          else execute_without_progress ex' sorted_tasks run)"

section \<open>Auxiliary notions for the proofs\<close>

text \<open>The batch that one iteration of the resolver emits when \<open>done\<close> is placed.\<close>

definition next_batch :: "ParallelTask list \<Rightarrow> string set \<Rightarrow> ParallelTask list" where
  "next_batch tasks done =
     sort_by_priority (if find_ready tasks done = [] then remaining_tasks tasks done
                       else find_ready tasks done)"

text \<open>
  The invariant of the resolver's loop: \<open>completed\<close> holds the ids of the tasks placed so
  far, and these are exactly the input tasks whose id is in \<open>completed\<close>, each once.
\<close>

definition resolver_inv :: "ParallelTask list \<Rightarrow> resolver_state \<Rightarrow> bool" where
  "resolver_inv tasks s =
     (completed s = set (map id_task (concat (batches s))) \<and>
      mset (concat (batches s)) = mset (filter (\<lambda>t. id_task t \<in> completed s) tasks))"

text \<open>The dependency edges of a task list, from a task's id to the id it depends on.\<close>

definition dep_edges :: "ParallelTask list \<Rightarrow> (string \<times> string) list" where
  "dep_edges tasks = concat (map (\<lambda>t. map (\<lambda>d. (id_task t, d)) (dependencies t)) tasks)"

text \<open>The ids placed in the first \<open>k\<close> batches.\<close>

definition placed_before :: "ParallelTask list list \<Rightarrow> nat \<Rightarrow> string set" where
  "placed_before bs k = set (map id_task (concat (take k bs)))"

text \<open>Batch \<open>k\<close> of \<open>bs\<close> was forced: no task was ready when it was built.\<close>

definition forced_at :: "ParallelTask list \<Rightarrow> ParallelTask list list \<Rightarrow> nat \<Rightarrow> bool" where
  "forced_at tasks bs k = (find_ready tasks (placed_before bs k) = [])"

text \<open>
  A second invariant of the resolver's loop, on the batches emitted so far: each is the one
  the loop body builds from the ids placed before it; only the last can be forced, and
  then the loop is about to end and the warning is the one line printed.
\<close>

definition history_inv :: "ParallelTask list \<Rightarrow> executor \<Rightarrow> resolver_state \<Rightarrow> bool" where
  "history_inv tasks ex s =
     ((\<forall>k<length (batches s). batches s ! k = next_batch tasks (placed_before (batches s) k)) \<and>
      (\<forall>k. Suc k < length (batches s) \<longrightarrow> \<not> forced_at tasks (batches s) k) \<and>
      (\<forall>k. Suc k = length (batches s) \<longrightarrow> forced_at tasks (batches s) k \<longrightarrow>
           \<not> resolve_cond tasks s \<and>
           printed s = console ex @
             [CircularDependencyWarning (length (remaining_tasks tasks (placed_before (batches s) k)))]) \<and>
      ((\<forall>k<length (batches s). \<not> forced_at tasks (batches s) k) \<longrightarrow> printed s = console ex))"

text \<open>
  The result dictionary after the tasks of a batch, and of a list of batches, have been
  stored in order, each with the result of its own call of the capability.
\<close>

definition batch_store :: "(ParallelTask \<Rightarrow> query_run) \<Rightarrow> ParallelTask list \<Rightarrow> results \<Rightarrow> results" where
  "batch_store run batch m = fold (\<lambda>t m. m(id_task t \<mapsto> execute_single_task t (run t))) batch m"

definition all_store :: "(ParallelTask \<Rightarrow> query_run) \<Rightarrow> ParallelTask list list \<Rightarrow> results \<Rightarrow> results" where
  "all_store run bs m = fold (batch_store run) bs m"

text \<open>
  The invariant of the interleavings of one batch: permits are neither lost nor made, and
  a coroutine that has returned holds the value of its own task.
\<close>

definition gather_inv :: "int \<Rightarrow> (ParallelTask \<Rightarrow> query_run) \<Rightarrow> ParallelTask list \<Rightarrow> gather_state \<Rightarrow> bool" where
  "gather_inv sem run batch s =
     (permits s + int (in_flight s) = sem \<and> 0 \<le> permits s \<and> length (phases s) = length batch \<and>
      (\<forall>i<length batch. \<forall>r. phases s ! i = Returned r \<longrightarrow> r = run_with_semaphore run (batch ! i)))"

text \<open>A measure that every step of a batch decreases.\<close>

definition gather_weight :: "gather_state \<Rightarrow> nat" where
  "gather_weight s = 2 * length (filter (\<lambda>p. p = Queued) (phases s)) + in_flight s"

section \<open>Example inputs\<close>

text \<open>A task with the given id, priority and dependencies; the other fields are defaults.\<close>

definition example_task :: "string \<Rightarrow> int \<Rightarrow> string list \<Rightarrow> ParallelTask" where
  "example_task i p ds =
     \<lparr>id_task = i, prompt = ''do '' @ i, description = ''task '' @ i, priority = p,
      max_turns = 5, timeout = None, dependencies = ds, tools_allowed = None,
      tools_blocked = None\<rparr>"

text \<open>A capability that always succeeds after one second, echoing the description.\<close>

definition echo_run :: "ParallelTask \<Rightarrow> query_run" where
  "echo_run task =
     \<lparr>messages = [ContentMessage [TextBlock (description task)]], ending = Completed,
      started = 0, stopped = 1\<rparr>"

text \<open>A capability that raises for the task with id \<open>bad\<close> and echoes for every other task.\<close>

definition failing_run :: "string \<Rightarrow> ParallelTask \<Rightarrow> query_run" where
  "failing_run bad task =
     (if id_task task = bad
      then \<lparr>messages = [], ending = RaisedException ''boom'', started = 0, stopped = 1\<rparr>
      else echo_run task)"

section \<open>The resolver's loop\<close>

lemma resolve_loop_funpow:
  assumes "\<not> resolve_cond tasks ((resolve_step tasks ^^ k) s)"
    and "\<forall>j<k. resolve_cond tasks ((resolve_step tasks ^^ j) s)"
  shows "resolve_loop tasks s = Some ((resolve_step tasks ^^ k) s)"
  using assms
proof (induction k arbitrary: s)
  case 0
  then show ?case by (simp add: resolve_loop.simps)
next
  case (Suc k)
  from Suc.prems(2) have c0: "resolve_cond tasks s" by (metis funpow_0 zero_less_Suc)
  have a: "\<not> resolve_cond tasks ((resolve_step tasks ^^ k) (resolve_step tasks s))"
    using Suc.prems(1) by (simp add: funpow_swap1)
  have b: "\<forall>j<k. resolve_cond tasks ((resolve_step tasks ^^ j) (resolve_step tasks s))"
  proof (intro allI impI)
    fix j assume "j < k"
    then have "resolve_cond tasks ((resolve_step tasks ^^ Suc j) s)" using Suc.prems(2) by blast
    then show "resolve_cond tasks ((resolve_step tasks ^^ j) (resolve_step tasks s))"
      by (simp add: funpow_swap1)
  qed
  have "resolve_loop tasks s = resolve_loop tasks (resolve_step tasks s)"
    using c0 by (subst resolve_loop.simps) simp
  also have "\<dots> = Some ((resolve_step tasks ^^ k) (resolve_step tasks s))"
    by (rule Suc.IH[OF a b])
  finally show ?case by (simp add: funpow_swap1)
qed

lemma resolve_iterate:
  assumes "I s"
    and "\<And>s. I s \<Longrightarrow> resolve_cond tasks s \<Longrightarrow> I (resolve_step tasks s) \<and> m (resolve_step tasks s) < (m s :: nat)"
  shows "\<exists>k\<le>m s. \<not> resolve_cond tasks ((resolve_step tasks ^^ k) s)
          \<and> (\<forall>j<k. resolve_cond tasks ((resolve_step tasks ^^ j) s))
          \<and> I ((resolve_step tasks ^^ k) s)"
  using assms(1)
proof (induction "m s" arbitrary: s rule: less_induct)
  case less
  show ?case
  proof (cases "resolve_cond tasks s")
    case False
    then show ?thesis using less.prems by (intro exI[of _ 0]) simp
  next
    case True
    let ?s = "resolve_step tasks s"
    from assms(2)[OF less.prems True] have i: "I ?s" and d: "m ?s < m s" by auto
    from less.hyps[OF d i] obtain k where k: "k \<le> m ?s"
      "\<not> resolve_cond tasks ((resolve_step tasks ^^ k) ?s)"
      "\<forall>j<k. resolve_cond tasks ((resolve_step tasks ^^ j) ?s)"
      "I ((resolve_step tasks ^^ k) ?s)" by blast
    have "\<forall>j<Suc k. resolve_cond tasks ((resolve_step tasks ^^ j) s)"
    proof (intro allI impI)
      fix j assume j: "j < Suc k"
      show "resolve_cond tasks ((resolve_step tasks ^^ j) s)"
      proof (cases j)
        case 0 then show ?thesis using True by simp
      next
        case (Suc j')
        then show ?thesis using k(3) j by (simp add: funpow_swap1)
      qed
    qed
    with k d show ?thesis
      by (intro exI[of _ "Suc k"]) (simp add: funpow_swap1)
  qed
qed


lemma set_sort_by_priority [simp]: "set (sort_by_priority ts) = set ts"
  by (simp add: sort_by_priority_def)

lemma mset_sort_by_priority [simp]: "mset (sort_by_priority ts) = mset ts"
  by (simp add: sort_by_priority_def)

lemma length_sort_by_priority [simp]: "length (sort_by_priority ts) = length ts"
  by (simp add: sort_by_priority_def)

lemma sort_by_priority_Nil [simp]: "sort_by_priority ts = [] \<longleftrightarrow> ts = []"
  by (metis length_sort_by_priority length_0_conv)

lemma completed_step:
  "completed (resolve_step tasks s) = completed s \<union> set (map id_task (next_batch tasks (completed s)))"
  by (simp add: resolve_step_def next_batch_def Let_def)

lemma batches_step:
  "batches (resolve_step tasks s) = batches s @ [next_batch tasks (completed s)]"
  by (simp add: resolve_step_def next_batch_def Let_def)

lemma printed_step:
  "printed (resolve_step tasks s) =
     (if find_ready tasks (completed s) = []
      then printed s @ [CircularDependencyWarning (length (remaining_tasks tasks (completed s)))]
      else printed s)"
  by (simp add: resolve_step_def Let_def)

lemma set_next_batch_subset:
  "set (next_batch tasks done) \<subseteq> {t \<in> set tasks. id_task t \<notin> done}"
  by (auto simp: next_batch_def find_ready_def remaining_tasks_def)

lemma next_batch_nonempty:
  assumes "t \<in> set tasks" "id_task t \<notin> done"
  shows "next_batch tasks done \<noteq> []"
proof -
  have "remaining_tasks tasks done \<noteq> []"
    using assms by (auto simp: remaining_tasks_def filter_empty_conv)
  then show ?thesis by (simp add: next_batch_def)
qed

lemma mset_filter_disj:
  "(\<And>x. x \<in> set xs \<Longrightarrow> \<not> (A x \<and> B x)) \<Longrightarrow>
     mset (filter (\<lambda>x. A x \<or> B x) xs) = mset (filter A xs) + mset (filter B xs)"
  by (induction xs) auto

lemma resolver_inv_init: "resolver_inv tasks (resolve_init ex)"
  by (simp add: resolver_inv_def resolve_init_def)

lemma resolver_inv_subset:
  assumes "resolver_inv tasks s"
  shows "completed s \<subseteq> set (map id_task tasks)"
proof -
  have "set_mset (mset (concat (batches s))) \<subseteq> set tasks"
    using assms unfolding resolver_inv_def by (metis (no_types, lifting) filter_is_subset set_mset_mset)
  then have "set (concat (batches s)) \<subseteq> set tasks" by simp
  moreover have "completed s = id_task ` set (concat (batches s))"
    using assms unfolding resolver_inv_def by simp
  ultimately show ?thesis by auto
qed

lemma resolver_inv_step:
  assumes d: "distinct (map id_task tasks)" and inv: "resolver_inv tasks s"
  shows "resolver_inv tasks (resolve_step tasks s)"
proof -
  let ?done = "completed s"
  let ?nb = "next_batch tasks ?done"
  define P where "P = (\<lambda>t::ParallelTask. if find_ready tasks ?done = [] then id_task t \<notin> ?done
     else id_task t \<notin> ?done \<and> list_all (\<lambda>dep. dep \<in> ?done) (dependencies t))"
  have nb: "mset ?nb = mset (filter P tasks)"
    by (simp add: next_batch_def P_def find_ready_def remaining_tasks_def)
  then have snb: "set ?nb = set (filter P tasks)" by (metis set_mset_mset)
  have Pn: "\<And>t. P t \<Longrightarrow> id_task t \<notin> ?done" by (simp add: P_def split: if_splits)
  have inj: "inj_on id_task (set tasks)" using d by (simp add: distinct_map)
  have eqv: "\<And>t. t \<in> set tasks \<Longrightarrow>
      (id_task t \<in> ?done \<union> set (map id_task ?nb)) = (id_task t \<in> ?done \<or> P t)"
  proof -
    fix t assume t: "t \<in> set tasks"
    show "(id_task t \<in> ?done \<union> set (map id_task ?nb)) = (id_task t \<in> ?done \<or> P t)"
    proof
      assume "id_task t \<in> ?done \<union> set (map id_task ?nb)"
      then consider "id_task t \<in> ?done" | t' where "t' \<in> set ?nb" "id_task t' = id_task t"
        by auto
      then show "id_task t \<in> ?done \<or> P t"
      proof cases
        case 1 then show ?thesis by simp
      next
        case 2
        then have "t' \<in> set tasks" "P t'" using snb by auto
        with 2 t inj have "t' = t" by (auto dest: inj_onD)
        with \<open>P t'\<close> show ?thesis by simp
      qed
    next
      assume "id_task t \<in> ?done \<or> P t"
      then show "id_task t \<in> ?done \<union> set (map id_task ?nb)"
        using t snb by auto
    qed
  qed
  have "mset (concat (batches (resolve_step tasks s))) = mset (concat (batches s)) + mset ?nb"
    by (simp add: batches_step)
  also have "\<dots> = mset (filter (\<lambda>t. id_task t \<in> ?done) tasks) + mset (filter P tasks)"
    using inv nb by (simp add: resolver_inv_def)
  also have "\<dots> = mset (filter (\<lambda>t. id_task t \<in> ?done \<or> P t) tasks)"
    using Pn by (subst mset_filter_disj) auto
  also have "\<dots> = mset (filter (\<lambda>t. id_task t \<in> completed (resolve_step tasks s)) tasks)"
    unfolding completed_step using eqv by (metis (mono_tags, lifting) filter_cong)
  finally have m: "mset (concat (batches (resolve_step tasks s))) =
      mset (filter (\<lambda>t. id_task t \<in> completed (resolve_step tasks s)) tasks)" .
  have c: "completed (resolve_step tasks s) = set (map id_task (concat (batches (resolve_step tasks s))))"
    using inv by (auto simp: completed_step batches_step resolver_inv_def)
  from m c show ?thesis by (simp add: resolver_inv_def)
qed

lemma resolver_progress:
  assumes d: "distinct (map id_task tasks)" and inv: "resolver_inv tasks s"
    and c: "resolve_cond tasks s"
  shows "card (completed s) < card (completed (resolve_step tasks s))"
    and "next_batch tasks (completed s) \<noteq> []"
proof -
  have sub: "completed s \<subseteq> set (map id_task tasks)" by (rule resolver_inv_subset[OF inv])
  have cardids: "card (set (map id_task tasks)) = length tasks"
    using d by (metis distinct_card length_map)
  have "completed s \<noteq> set (map id_task tasks)"
    using c cardids by (auto simp: resolve_cond_def)
  with sub obtain t where t: "t \<in> set tasks" "id_task t \<notin> completed s" by auto
  show ne: "next_batch tasks (completed s) \<noteq> []" by (rule next_batch_nonempty[OF t])
  then obtain u where u: "u \<in> set (next_batch tasks (completed s))"
    by (meson last_in_set)
  then have un: "id_task u \<notin> completed s" using set_next_batch_subset by blast
  have fin: "finite (completed (resolve_step tasks s))"
    using resolver_inv_subset[OF resolver_inv_step[OF d inv]] by (meson List.finite_set finite_subset)
  have "completed s \<subset> completed (resolve_step tasks s)"
    using u un by (auto simp: completed_step)
  then show "card (completed s) < card (completed (resolve_step tasks s))"
    using fin by (rule psubset_card_mono[rotated])
qed

lemma resolver_exit:
  assumes d: "distinct (map id_task tasks)" and inv: "resolver_inv tasks s"
    and c: "\<not> resolve_cond tasks s"
  shows "completed s = set (map id_task tasks)" and "mset (concat (batches s)) = mset tasks"
proof -
  have sub: "completed s \<subseteq> set (map id_task tasks)" by (rule resolver_inv_subset[OF inv])
  have cardids: "card (set (map id_task tasks)) = length tasks"
    using d by (metis distinct_card length_map)
  show e: "completed s = set (map id_task tasks)"
    using sub c cardids by (intro card_seteq) (auto simp: resolve_cond_def)
  have "filter (\<lambda>t. id_task t \<in> completed s) tasks = tasks"
    unfolding e by (simp add: filter_id_conv)
  then show "mset (concat (batches s)) = mset tasks"
    using inv by (simp add: resolver_inv_def)
qed


lemma resolve_loop_distinct:
  assumes d: "distinct (map id_task tasks)" and inv: "resolver_inv tasks s"
  shows "\<exists>k\<le>length tasks - card (completed s).
           resolve_loop tasks s = Some ((resolve_step tasks ^^ k) s)
         \<and> \<not> resolve_cond tasks ((resolve_step tasks ^^ k) s)
         \<and> (\<forall>j<k. resolve_cond tasks ((resolve_step tasks ^^ j) s))
         \<and> resolver_inv tasks ((resolve_step tasks ^^ k) s)"
proof -
  have "\<exists>k\<le>length tasks - card (completed s).
          \<not> resolve_cond tasks ((resolve_step tasks ^^ k) s)
        \<and> (\<forall>j<k. resolve_cond tasks ((resolve_step tasks ^^ j) s))
        \<and> resolver_inv tasks ((resolve_step tasks ^^ k) s)"
  proof (rule resolve_iterate[where I = "resolver_inv tasks"
        and m = "\<lambda>s. length tasks - card (completed s)", OF inv])
    fix s' assume i: "resolver_inv tasks s'" and c: "resolve_cond tasks s'"
    have "card (completed s') < card (completed (resolve_step tasks s'))"
      by (rule resolver_progress(1)[OF d i c])
    moreover have "card (completed s') < length tasks" using c by (simp add: resolve_cond_def)
    ultimately show "resolver_inv tasks (resolve_step tasks s') \<and>
         length tasks - card (completed (resolve_step tasks s')) < length tasks - card (completed s')"
      using resolver_inv_step[OF d i] by auto
  qed
  then obtain k where k: "k \<le> length tasks - card (completed s)"
    "\<not> resolve_cond tasks ((resolve_step tasks ^^ k) s)"
    "\<forall>j<k. resolve_cond tasks ((resolve_step tasks ^^ j) s)"
    "resolver_inv tasks ((resolve_step tasks ^^ k) s)" by blast
  from resolve_loop_funpow[OF k(2) k(3)] k show ?thesis by blast
qed

lemma resolve_loop_diverges:
  assumes step: "\<And>s. Q s \<Longrightarrow> resolve_cond tasks s \<and> Q (resolve_step tasks s)" and q: "Q s"
  shows "resolve_loop tasks s = None"
proof (rule ccontr)
  assume "resolve_loop tasks s \<noteq> None"
  then obtain y where y: "resolve_loop tasks s = Some y" by auto
  have "tasks = tasks \<longrightarrow> \<not> Q s"
  proof (rule resolve_loop.raw_induct[where P = "\<lambda>t s y. t = tasks \<longrightarrow> \<not> Q s", OF _ y])
    fix loop :: "ParallelTask list \<Rightarrow> resolver_state \<Rightarrow> resolver_state option"
    fix t s' y'
    assume ih: "\<And>t s y. loop t s = Some y \<Longrightarrow> t = tasks \<longrightarrow> \<not> Q s"
      and eq: "(if resolve_cond t s' then loop t (resolve_step t s') else Some s') = Some y'"
    show "t = tasks \<longrightarrow> \<not> Q s'"
    proof (intro impI notI)
      assume t: "t = tasks" and qs: "Q s'"
      from step[OF qs] have c: "resolve_cond tasks s'" and q': "Q (resolve_step tasks s')" by auto
      from eq t c have "loop tasks (resolve_step tasks s') = Some y'" by simp
      from ih[OF this] q' show False by simp
    qed
  qed
  with q show False by simp
qed

lemma completed_step_subset:
  assumes "completed s \<subseteq> id_task ` set tasks"
  shows "completed (resolve_step tasks s) \<subseteq> id_task ` set tasks"
proof -
  have "id_task ` set (next_batch tasks (completed s)) \<subseteq> id_task ` set tasks"
    using set_next_batch_subset[of tasks "completed s"] by blast
  with assms show ?thesis by (simp add: completed_step)
qed

lemma duplicate_cond:
  assumes nd: "\<not> distinct (map id_task tasks)" and sub: "completed s \<subseteq> id_task ` set tasks"
  shows "resolve_cond tasks s"
proof -
  have "card (set (map id_task tasks)) < length (map id_task tasks)"
    using nd by (metis card_distinct card_length le_neq_implies_less)
  moreover have "card (completed s) \<le> card (set (map id_task tasks))"
    using sub by (simp add: card_mono)
  ultimately show ?thesis by (simp add: resolve_cond_def)
qed

lemma resolve_loop_duplicate:
  assumes nd: "\<not> distinct (map id_task tasks)" and sub: "completed s \<subseteq> id_task ` set tasks"
  shows "resolve_loop tasks s = None"
proof (rule resolve_loop_diverges[where Q = "\<lambda>s. completed s \<subseteq> id_task ` set tasks"])
  fix s' :: resolver_state assume a: "completed s' \<subseteq> id_task ` set tasks"
  show "resolve_cond tasks s' \<and> completed (resolve_step tasks s') \<subseteq> id_task ` set tasks"
    using duplicate_cond[OF nd a] completed_step_subset[OF a] by simp
qed (rule sub)

lemma resolve_dependencies_duplicate:
  "\<not> distinct (map id_task tasks) \<Longrightarrow> resolve_dependencies ex tasks = None"
  by (simp add: resolve_dependencies_def resolve_loop_duplicate resolve_init_def)

section \<open>Tasks without dependencies\<close>

lemma resolve_dependencies_Nil: "resolve_dependencies ex [] = Some ([], ex)"
  by (simp add: resolve_dependencies_def resolve_loop.simps resolve_cond_def resolve_init_def)

lemma find_ready_no_deps:
  assumes "\<forall>t\<in>set tasks. dependencies t = []"
  shows "find_ready tasks {} = tasks"
  using assms by (simp add: find_ready_def filter_id_conv)

text \<open>
  C8, as the claim states it, fails on the empty task list: the loop body never runs and
  the resolver returns no batch at all, not one batch.
\<close>

theorem single_batch_empty_input:
  "\<exists>bs ex'. resolve_dependencies (executor_init 4) [] = Some (bs, ex') \<and> length bs = 0"
  by (simp add: resolve_dependencies_Nil)

text \<open>
  C8 (amended): for every non-empty task list with pairwise distinct ids and no dependency
  edges, \<^verbatim>\<open>_resolve_dependencies\<close> returns exactly one batch and prints nothing.  The batch
  holds every task once, is ordered by descending priority, and tasks of equal priority
  keep their relative input order.
\<close>

theorem no_dependencies_single_batch:
  assumes ne: "tasks \<noteq> []" and d: "distinct (map id_task tasks)"
    and nodeps: "\<forall>t\<in>set tasks. dependencies t = []"
  shows "resolve_dependencies ex tasks = Some ([sort_by_priority tasks], ex)
           \<and> mset (sort_by_priority tasks) = mset tasks
           \<and> sorted_wrt (\<lambda>x y. priority x \<ge> priority y) (sort_by_priority tasks)
           \<and> (\<forall>p. filter (\<lambda>t. priority t = p) (sort_by_priority tasks)
                    = filter (\<lambda>t. priority t = p) tasks)"
proof -
  let ?s0 = "resolve_init ex"
  let ?b = "sort_by_priority tasks"
  have c0: "resolve_cond tasks ?s0"
    using ne by (simp add: resolve_cond_def resolve_init_def)
  have nb: "next_batch tasks {} = ?b"
    using ne by (simp add: next_batch_def find_ready_no_deps[OF nodeps])
  have fr: "find_ready tasks (completed ?s0) \<noteq> []"
    using ne by (simp add: resolve_init_def find_ready_no_deps[OF nodeps])
  have comp: "completed (resolve_step tasks ?s0) = set (map id_task tasks)"
    by (simp add: completed_step nb resolve_init_def)
  have "card (set (map id_task tasks)) = length tasks"
    using d by (metis distinct_card length_map)
  then have c1: "\<not> resolve_cond tasks (resolve_step tasks ?s0)"
    by (simp add: resolve_cond_def comp)
  have "resolve_loop tasks ?s0 = Some (resolve_step tasks ?s0)"
    using resolve_loop_funpow[of tasks 1 ?s0] c0 c1 by simp
  moreover have "batches (resolve_step tasks ?s0) = [?b]"
    by (simp add: batches_step nb resolve_init_def)
  moreover have "printed (resolve_step tasks ?s0) = console ex"
    using fr by (simp add: printed_step) (simp add: resolve_init_def)
  ultimately have r: "resolve_dependencies ex tasks = Some ([?b], ex)"
    by (simp add: resolve_dependencies_def)
  have "sorted (map (\<lambda>x. - priority x) ?b)"
    unfolding sort_by_priority_def by (rule sorted_sort_key)
  then have s: "sorted_wrt (\<lambda>x y. priority x \<ge> priority y) ?b"
    by (simp add: sorted_wrt_map)
  have st: "\<forall>p. filter (\<lambda>t. priority t = p) ?b = filter (\<lambda>t. priority t = p) tasks"
  proof
    fix p
    have "filter (\<lambda>t. - priority t = - p) (sort_key (\<lambda>x. - priority x) tasks)
        = filter (\<lambda>t. - priority t = - p) tasks"
      by (rule sort_key_stable)
    then show "filter (\<lambda>t. priority t = p) ?b = filter (\<lambda>t. priority t = p) tasks"
      by (simp add: sort_by_priority_def)
  qed
  from r s st show ?thesis by simp
qed

theorem no_dependencies_single_batch_witness:
  "resolve_dependencies (executor_init 4)
     [example_task ''a'' 1 [], example_task ''b'' 3 [], example_task ''c'' 1 [], example_task ''d'' 3 []]
   = Some ([[example_task ''b'' 3 [], example_task ''d'' 3 [], example_task ''a'' 1 [], example_task ''c'' 1 []]],
           executor_init 4)"
proof -
  let ?ts = "[example_task ''a'' 1 [], example_task ''b'' 3 [], example_task ''c'' 1 [], example_task ''d'' 3 []]"
  have 1: "?ts \<noteq> []" by simp
  have 2: "distinct (map id_task ?ts)" by (simp add: example_task_def)
  have 3: "\<forall>t\<in>set ?ts. dependencies t = []" by (simp add: example_task_def)
  have 4: "sort_by_priority ?ts
     = [example_task ''b'' 3 [], example_task ''d'' 3 [], example_task ''a'' 1 [], example_task ''c'' 1 []]"
    by (simp add: sort_by_priority_def example_task_def)
  from no_dependencies_single_batch[OF 1 2 3, of "executor_init 4"] 4
  show ?thesis by simp
qed

section \<open>Duplicate task ids\<close>

text \<open>
  C3: a task list with two tasks of the same id should be rejected by \<^verbatim>\<open>execute_batch\<close>
  before any task runs, with the duplicate reported to the caller.  The code has no such
  check.  With a duplicate id the set \<^verbatim>\<open>completed\<close> can never hold as many ids as there are
  tasks, so the loop of \<^verbatim>\<open>_resolve_dependencies\<close> never ends: \<^verbatim>\<open>execute_batch\<close> neither
  returns nor raises, whatever the capability does.  (No task runs, but nothing is reported.)
\<close>

theorem duplicate_ids_never_return:
  assumes "\<not> distinct (map id_task tasks)"
  shows "execute_batch ex tasks show_progress run = None"
  using assms by (simp add: execute_batch_def resolve_dependencies_duplicate)

theorem duplicate_ids_never_return_witness:
  "execute_batch (executor_init 4) [example_task ''x'' 1 [], example_task ''x'' 2 []] True echo_run = None
 \<and> execute_batch (executor_init 4) [example_task ''x'' 1 [], example_task ''x'' 2 []] False echo_run = None"
proof -
  have "\<not> distinct (map id_task [example_task ''x'' 1 [], example_task ''x'' 2 []])"
    by (simp add: example_task_def)
  from duplicate_ids_never_return[OF this] show ?thesis by simp
qed

lemma completed_funpow_subset:
  "completed s \<subseteq> id_task ` set tasks \<Longrightarrow>
     completed ((resolve_step tasks ^^ k) s) \<subseteq> id_task ` set tasks"
  by (induction k) (simp_all add: completed_step_subset)

text \<open>
  C4: the loop of \<^verbatim>\<open>_resolve_dependencies\<close> should end within \<open>|tasks|\<close> iterations on
  every task list.  It does so exactly when the ids are pairwise distinct: then it leaves
  after some \<open>k \<le> |tasks|\<close> iterations (the condition holds before each of them and fails
  after the last).  With a duplicate id the condition holds after every number of
  iterations, and the loop never returns.
\<close>

theorem resolve_loop_iterations:
  "(distinct (map id_task tasks) \<longrightarrow>
      (\<exists>k\<le>length tasks.
          resolve_loop tasks (resolve_init ex) = Some ((resolve_step tasks ^^ k) (resolve_init ex))
        \<and> \<not> resolve_cond tasks ((resolve_step tasks ^^ k) (resolve_init ex))
        \<and> (\<forall>j<k. resolve_cond tasks ((resolve_step tasks ^^ j) (resolve_init ex)))))
 \<and> (\<not> distinct (map id_task tasks) \<longrightarrow>
      resolve_loop tasks (resolve_init ex) = None
    \<and> (\<forall>k. resolve_cond tasks ((resolve_step tasks ^^ k) (resolve_init ex))))"
proof (intro conjI impI)
  assume d: "distinct (map id_task tasks)"
  from resolve_loop_distinct[OF d resolver_inv_init, of ex]
  show "\<exists>k\<le>length tasks.
          resolve_loop tasks (resolve_init ex) = Some ((resolve_step tasks ^^ k) (resolve_init ex))
        \<and> \<not> resolve_cond tasks ((resolve_step tasks ^^ k) (resolve_init ex))
        \<and> (\<forall>j<k. resolve_cond tasks ((resolve_step tasks ^^ j) (resolve_init ex)))"
    by (auto simp: resolve_init_def)
next
  assume nd: "\<not> distinct (map id_task tasks)"
  have sub: "completed (resolve_init ex) \<subseteq> id_task ` set tasks" by (simp add: resolve_init_def)
  show "resolve_loop tasks (resolve_init ex) = None"
    by (rule resolve_loop_duplicate[OF nd sub])
  show "\<forall>k. resolve_cond tasks ((resolve_step tasks ^^ k) (resolve_init ex))"
    using duplicate_cond[OF nd completed_funpow_subset[OF sub]] by simp
qed

theorem resolve_loop_iterations_witness:
  "resolve_loop [example_task ''x'' 1 [], example_task ''x'' 2 []] (resolve_init (executor_init 4)) = None
 \<and> (\<forall>k. resolve_cond [example_task ''x'' 1 [], example_task ''x'' 2 []]
        ((resolve_step [example_task ''x'' 1 [], example_task ''x'' 2 []] ^^ k) (resolve_init (executor_init 4))))
 \<and> (\<exists>k\<le>3. resolve_loop [example_task ''a'' 1 [], example_task ''b'' 1 [''a''], example_task ''c'' 1 [''b'']]
        (resolve_init (executor_init 4))
      = Some ((resolve_step [example_task ''a'' 1 [], example_task ''b'' 1 [''a''], example_task ''c'' 1 [''b'']] ^^ k)
        (resolve_init (executor_init 4))))"
proof -
  let ?dup = "[example_task ''x'' 1 [], example_task ''x'' 2 []]"
  let ?chain = "[example_task ''a'' 1 [], example_task ''b'' 1 [''a''], example_task ''c'' 1 [''b'']]"
  let ?s0 = "resolve_init (executor_init 4)"
  have nd: "\<not> distinct (map id_task ?dup)"
    by (simp add: example_task_def)
  have d: "distinct (map id_task ?chain)"
    by (simp add: example_task_def)
  from resolve_loop_iterations[of ?dup "executor_init 4"] nd
  have 1: "resolve_loop ?dup ?s0 = None \<and> (\<forall>k. resolve_cond ?dup ((resolve_step ?dup ^^ k) ?s0))"
    by blast
  from resolve_loop_iterations[of ?chain "executor_init 4"] d
  have "\<exists>k\<le>length ?chain. resolve_loop ?chain ?s0 = Some ((resolve_step ?chain ^^ k) ?s0)"
    by blast
  then have 2: "\<exists>k\<le>3. resolve_loop ?chain ?s0 = Some ((resolve_step ?chain ^^ k) ?s0)"
    by (simp add: numeral_3_eq_3)
  from 1 2 show ?thesis by blast
qed

section \<open>Text chunks and the result string\<close>

lemma result_parts_text_chunks:
  "result_parts (map (\<lambda>c. ContentMessage [TextBlock c]) chunks) = chunks"
  by (induction chunks) (simp_all add: result_parts_def)

text \<open>
  C9, as the claim states it, fails: two chunks \<^verbatim>\<open>ab\<close> and \<^verbatim>\<open>cd\<close> do not give their
  concatenation \<^verbatim>\<open>abcd\<close>, but \<^verbatim>\<open>ab\<close>, a newline, \<^verbatim>\<open>cd\<close>.
\<close>

theorem chunks_not_concatenated:
  "result (execute_single_task (example_task ''a'' 1 [])
      \<lparr>messages = [ContentMessage [TextBlock ''ab''], ContentMessage [TextBlock ''cd'']],
       ending = Completed, started = 0, stopped = 1\<rparr>) = ''ab'' @ [CHR 0x0A] @ ''cd''
   \<and> result (execute_single_task (example_task ''a'' 1 [])
      \<lparr>messages = [ContentMessage [TextBlock ''ab''], ContentMessage [TextBlock ''cd'']],
       ending = Completed, started = 0, stopped = 1\<rparr>) \<noteq> concat [''ab'', ''cd'']"
  by (simp add: execute_single_task_def result_parts_def)

text \<open>
  C9 (amended): when the capability completes, the task succeeds, and its result string
  is the text chunks received, in the order received, joined with one newline character
  between consecutive chunks (\<^verbatim>\<open>'\n'.join(result_parts)\<close>).  With no chunk the result is
  the empty string.  Every text block of a message is one chunk.
\<close>

theorem chunks_joined_by_newline:
  assumes "ending run = Completed"
  shows "success (execute_single_task task run)
     \<and> error (execute_single_task task run) = None
     \<and> task_id (execute_single_task task run) = id_task task
     \<and> result (execute_single_task task run) = py_join [CHR 0x0A] (result_parts (messages run))
     \<and> (result_parts (messages run) = [] \<longrightarrow> result (execute_single_task task run) = [])
     \<and> result_parts (map (\<lambda>c. ContentMessage [TextBlock c]) chunks) = chunks"
  using assms by (simp add: execute_single_task_def result_parts_text_chunks)

theorem chunks_joined_by_newline_witness:
  "result (execute_single_task (example_task ''a'' 1 [])
      \<lparr>messages = [], ending = Completed, started = 0, stopped = 1\<rparr>) = []
   \<and> success (execute_single_task (example_task ''a'' 1 [])
      \<lparr>messages = [], ending = Completed, started = 0, stopped = 1\<rparr>)
   \<and> result (execute_single_task (example_task ''a'' 1 [])
      \<lparr>messages = map (\<lambda>c. ContentMessage [TextBlock c]) [''ab'', ''cd'', ''e''],
       ending = Completed, started = 0, stopped = 1\<rparr>) = ''ab'' @ [CHR 0x0A] @ ''cd'' @ [CHR 0x0A] @ ''e''"
proof -
  let ?r0 = "\<lparr>messages = [], ending = Completed, started = 0, stopped = 1\<rparr>"
  let ?r3 = "\<lparr>messages = map (\<lambda>c. ContentMessage [TextBlock c]) [''ab'', ''cd'', ''e''],
       ending = Completed, started = 0, stopped = 1\<rparr>"
  have e0: "ending ?r0 = Completed" by simp
  have e3: "ending ?r3 = Completed" by simp
  from chunks_joined_by_newline[OF e0, of "example_task ''a'' 1 []" "[]"]
       chunks_joined_by_newline[OF e3, of "example_task ''a'' 1 []" "[''ab'', ''cd'', ''e'']"]
  show ?thesis by (simp add: result_parts_def)
qed

section \<open>The time bound of a task\<close>

lemma execute_single_task_ignores_timeout:
  "execute_single_task (task\<lparr>timeout := b\<rparr>) run = execute_single_task task run"
  by (cases "ending run") (simp_all add: execute_single_task_def)

text \<open>
  C10: a task whose time bound elapses before the capability completes should come back
  failed, with a timeout error.  \<^verbatim>\<open>execute_single_task\<close> never reads \<^verbatim>\<open>task.timeout\<close>
  and never bounds the call: a task with a bound of 1 second whose capability completes
  after 5 seconds comes back with \<^verbatim>\<open>success=True\<close> and no error.
\<close>

theorem timeout_not_enforced:
  "timeout ((example_task ''slow'' 1 [])\<lparr>timeout := Some 1\<rparr>) = Some 1
   \<and> 1 < stopped ((echo_run (example_task ''slow'' 1 []))\<lparr>stopped := 5\<rparr>)
         - started ((echo_run (example_task ''slow'' 1 []))\<lparr>stopped := 5\<rparr>)
   \<and> success (execute_single_task ((example_task ''slow'' 1 [])\<lparr>timeout := Some 1\<rparr>)
         ((echo_run (example_task ''slow'' 1 []))\<lparr>stopped := 5\<rparr>))
   \<and> error (execute_single_task ((example_task ''slow'' 1 [])\<lparr>timeout := Some 1\<rparr>)
         ((echo_run (example_task ''slow'' 1 []))\<lparr>stopped := 5\<rparr>)) = None"
  by (simp add: execute_single_task_def echo_run_def example_task_def)

section \<open>The concurrency cap\<close>

lemma count_list_update:
  "i < length xs \<Longrightarrow>
     int (length (filter P (xs[i := y]))) =
       int (length (filter P xs)) - (if P (xs ! i) then 1 else 0) + (if P y then 1 else 0)"
proof (induction xs arbitrary: i)
  case Nil
  then show ?case by simp
next
  case (Cons x xs)
  show ?case
  proof (cases i)
    case 0
    then show ?thesis by simp
  next
    case (Suc n)
    with Cons.prems have "n < length xs" by simp
    from Cons.IH[OF this] show ?thesis using Suc by (auto split: if_splits)
  qed
qed

lemma in_flight_acquire:
  assumes "i < length (phases s)" "phases s ! i = Queued"
  shows "int (in_flight (s\<lparr>permits := p, phases := (phases s)[i := InFlight]\<rparr>)) = int (in_flight s) + 1"
  using count_list_update[OF assms(1), of "\<lambda>p. p = InFlight" InFlight] assms(2)
  by (simp add: in_flight_def)

lemma in_flight_release:
  assumes "i < length (phases s)" "phases s ! i = InFlight"
  shows "int (in_flight (s\<lparr>permits := p, phases := (phases s)[i := Returned r]\<rparr>)) = int (in_flight s) - 1"
  using count_list_update[OF assms(1), of "\<lambda>p. p = InFlight" "Returned r"] assms(2)
  by (simp add: in_flight_def)

lemma gather_inv_init: "0 \<le> sem \<Longrightarrow> gather_inv sem run batch (gather_init sem batch)"
  by (simp add: gather_inv_def gather_init_def in_flight_def)

lemma gather_inv_step:
  assumes inv: "gather_inv sem run batch s" and st: "gather_step run batch s s'"
  shows "gather_inv sem run batch s'"
  using st
proof (cases rule: gather_step.cases)
  case (acquire i)
  have len: "length (phases s) = length batch" using inv by (simp add: gather_inv_def)
  have a: "permits s' + int (in_flight s') = sem"
    using in_flight_acquire[OF acquire(2,3)] inv acquire(1) by (simp add: gather_inv_def)
  have b: "0 \<le> permits s'" using acquire(1,4) by simp
  have c: "length (phases s') = length batch" using acquire(1) len by simp
  have d: "\<forall>j<length batch. \<forall>r. phases s' ! j = Returned r \<longrightarrow> r = run_with_semaphore run (batch ! j)"
  proof (intro allI impI)
    fix j r assume j: "j < length batch" and r: "phases s' ! j = Returned r"
    have "j \<noteq> i" using r acquire(1,2) by auto
    then have "phases s ! j = Returned r" using r acquire(1) by simp
    with inv j show "r = run_with_semaphore run (batch ! j)" by (simp add: gather_inv_def)
  qed
  from a b c d show ?thesis by (simp add: gather_inv_def)
next
  case (release i)
  have len: "length (phases s) = length batch" using inv by (simp add: gather_inv_def)
  have a: "permits s' + int (in_flight s') = sem"
    using in_flight_release[OF release(2,3)] inv release(1) by (simp add: gather_inv_def)
  have b: "0 \<le> permits s'" using release(1) inv by (simp add: gather_inv_def)
  have c: "length (phases s') = length batch" using release(1) len by simp
  have d: "\<forall>j<length batch. \<forall>r. phases s' ! j = Returned r \<longrightarrow> r = run_with_semaphore run (batch ! j)"
  proof (intro allI impI)
    fix j r assume j: "j < length batch" and r: "phases s' ! j = Returned r"
    show "r = run_with_semaphore run (batch ! j)"
    proof (cases "j = i")
      case True
      then show ?thesis using r release(1,2) by simp
    next
      case False
      then have "phases s ! j = Returned r" using r release(1) by simp
      with inv j show ?thesis by (simp add: gather_inv_def)
    qed
  qed
  from a b c d show ?thesis by (simp add: gather_inv_def)
qed

lemma gather_inv_reachable:
  assumes "0 \<le> sem" and "(gather_step run batch)\<^sup>*\<^sup>* (gather_init sem batch) s"
  shows "gather_inv sem run batch s"
  using assms(2)
proof (induction rule: rtranclp_induct)
  case base
  show ?case by (rule gather_inv_init[OF assms(1)])
next
  case (step y z)
  then show ?case by (blast intro: gather_inv_step)
qed

text \<open>
  C2: \<^verbatim>\<open>__init__\<close> clamps \<^verbatim>\<open>max_parallel\<close> to the ceiling 10 without rejecting a larger
  value, and in every state that a batch can reach while it runs under the semaphore made
  from it, the number of calls of the capability in flight is at most \<^verbatim>\<open>max_parallel\<close>.
  (A negative \<^verbatim>\<open>max_parallel\<close> makes no semaphore: the constructor raises.)
\<close>

theorem concurrency_cap:
  assumes "semaphore_new (max_parallel (executor_init mp)) = Inr sem"
    and "(gather_step run batch)\<^sup>*\<^sup>* (gather_init sem batch) s"
  shows "int (in_flight s) \<le> max_parallel (executor_init mp)
       \<and> max_parallel (executor_init mp) = min mp 10
       \<and> max_parallel (executor_init mp) \<le> 10"
proof -
  from assms(1) have sem: "sem = max_parallel (executor_init mp)" "0 \<le> sem"
    by (auto simp: semaphore_new_def split: if_splits)
  from gather_inv_reachable[OF sem(2) assms(2)]
  have "permits s + int (in_flight s) = sem" "0 \<le> permits s"
    by (simp_all add: gather_inv_def)
  then have "int (in_flight s) \<le> sem" by linarith
  then show ?thesis using sem(1) by (simp add: executor_init_def)
qed

theorem concurrency_cap_witness:
  "semaphore_new (max_parallel (executor_init 2)) = Inr 2
 \<and> (gather_step echo_run [example_task ''a'' 1 [], example_task ''b'' 1 [], example_task ''c'' 1 []])\<^sup>*\<^sup>*
      (gather_init 2 [example_task ''a'' 1 [], example_task ''b'' 1 [], example_task ''c'' 1 []])
      \<lparr>permits = 0, phases = [InFlight, InFlight, Queued]\<rparr>
 \<and> in_flight \<lparr>permits = 0, phases = [InFlight, InFlight, Queued]\<rparr> = 2
 \<and> int (in_flight \<lparr>permits = 0, phases = [InFlight, InFlight, Queued]\<rparr>) \<le> max_parallel (executor_init 2)"
proof -
  let ?b = "[example_task ''a'' 1 [], example_task ''b'' 1 [], example_task ''c'' 1 []]"
  let ?s0 = "\<lparr>permits = 2, phases = [Queued, Queued, Queued]\<rparr>"
  let ?s1 = "\<lparr>permits = 1, phases = [InFlight, Queued, Queued]\<rparr>"
  let ?s2 = "\<lparr>permits = 0, phases = [InFlight, InFlight, Queued]\<rparr>"
  have sem: "semaphore_new (max_parallel (executor_init 2)) = Inr 2"
    by (simp add: semaphore_new_def executor_init_def)
  have i: "gather_init 2 ?b = ?s0" by (simp add: gather_init_def)
  have 1: "gather_step echo_run ?b ?s0 ?s1"
    using gather_step.acquire[of 0 ?s0 echo_run ?b] by simp
  have 2: "gather_step echo_run ?b ?s1 ?s2"
    using gather_step.acquire[of 1 ?s1 echo_run ?b] by simp
  from 1 2 have r: "(gather_step echo_run ?b)\<^sup>*\<^sup>* (gather_init 2 ?b) ?s2"
    unfolding i by (rule rtranclp.rtrancl_into_rtrancl[OF r_into_rtranclp])
  have n: "in_flight ?s2 = 2" by (simp add: in_flight_def)
  from concurrency_cap[OF sem r] sem r n show ?thesis by simp
qed

text \<open>
  The value \<open>gather_batch\<close> gives to a batch agrees with the interleavings: when every
  coroutine has returned, the results are those of the tasks, in the order of the batch;
  with a permit, a batch that is not finished can always take a step, and every step
  decreases a measure, so the batch finishes; with no permit and a task to run, no step is
  possible and the batch never finishes.
\<close>

lemma all_returned_nth:
  assumes "all_returned s" "i < length (phases s)"
  shows "\<exists>r. phases s ! i = Returned r"
proof -
  from assms have "phases s ! i \<noteq> Queued \<and> phases s ! i \<noteq> InFlight"
    unfolding all_returned_def list_all_length by blast
  then show ?thesis by (cases "phases s ! i") simp_all
qed

lemma gather_terminal:
  assumes "0 \<le> sem" and "(gather_step run batch)\<^sup>*\<^sup>* (gather_init sem batch) s"
    and "all_returned s"
  shows "phases s = map Returned (map (run_with_semaphore run) batch)"
proof (rule nth_equalityI)
  from gather_inv_reachable[OF assms(1,2)] have inv: "gather_inv sem run batch s" .
  then have len: "length (phases s) = length batch" by (simp add: gather_inv_def)
  then show "length (phases s) = length (map Returned (map (run_with_semaphore run) batch))"
    by simp
  fix i assume i: "i < length (phases s)"
  from all_returned_nth[OF assms(3) i] obtain r where r: "phases s ! i = Returned r" by blast
  from inv i len r have "r = run_with_semaphore run (batch ! i)"
    unfolding gather_inv_def by metis
  with r i len show "phases s ! i = map Returned (map (run_with_semaphore run) batch) ! i"
    by simp
qed

lemma gather_progress:
  assumes "0 < sem" and "(gather_step run batch)\<^sup>*\<^sup>* (gather_init sem batch) s"
    and "\<not> all_returned s"
  shows "\<exists>s'. gather_step run batch s s'"
proof -
  from assms(1) have "0 \<le> sem" by simp
  from gather_inv_reachable[OF this assms(2)] have inv: "gather_inv sem run batch s" .
  show ?thesis
  proof (cases "InFlight \<in> set (phases s)")
    case True
    then obtain i where "i < length (phases s)" "phases s ! i = InFlight"
      unfolding in_set_conv_nth by blast
    from gather_step.release[OF this] show ?thesis by blast
  next
    case False
    then have "filter (\<lambda>p. p = InFlight) (phases s) = []"
      unfolding filter_empty_conv by blast
    then have "in_flight s = 0" by (simp add: in_flight_def)
    with inv assms(1) have p: "0 < permits s" by (simp add: gather_inv_def)
    from assms(3) obtain q where q: "q \<in> set (phases s)" "q = Queued \<or> q = InFlight"
      unfolding all_returned_def list_all_iff by blast
    with False have "Queued \<in> set (phases s)" by auto
    then obtain i where "i < length (phases s)" "phases s ! i = Queued"
      unfolding in_set_conv_nth by blast
    from gather_step.acquire[OF this p] show ?thesis by blast
  qed
qed

lemma gather_deadlock:
  assumes "batch \<noteq> []" and "(gather_step run batch)\<^sup>*\<^sup>* (gather_init 0 batch) s"
  shows "s = gather_init 0 batch \<and> \<not> all_returned s \<and> (\<forall>s'. \<not> gather_step run batch s s')"
proof -
  have stuck: "\<not> gather_step run batch (gather_init 0 batch) s'" for s'
  proof
    assume "gather_step run batch (gather_init 0 batch) s'"
    then show False
    proof (cases rule: gather_step.cases)
      case (acquire i)
      then show False by (simp add: gather_init_def)
    next
      case (release i)
      then show False by (simp add: gather_init_def)
    qed
  qed
  from assms(2) have e: "s = gather_init 0 batch"
  proof (induction rule: rtranclp_induct)
    case base
    show ?case by simp
  next
    case (step y z)
    with stuck show ?case by blast
  qed
  have "\<not> all_returned (gather_init 0 batch)"
    using assms(1) by (cases batch) (simp_all add: all_returned_def gather_init_def)
  with e stuck show ?thesis by simp
qed

lemma gather_step_weight:
  assumes "gather_step run batch s s'"
  shows "gather_weight s' < gather_weight s"
  using assms
proof (cases rule: gather_step.cases)
  case (acquire i)
  from count_list_update[OF acquire(2), of "\<lambda>p. p = Queued" InFlight]
       count_list_update[OF acquire(2), of "\<lambda>p. p = InFlight" InFlight] acquire(3)
  have "int (length (filter (\<lambda>p. p = Queued) (phases s'))) = int (length (filter (\<lambda>p. p = Queued) (phases s))) - 1"
    and "int (in_flight s') = int (in_flight s) + 1"
    by (simp_all add: acquire(1) in_flight_def)
  then show ?thesis unfolding gather_weight_def by linarith
next
  case (release i)
  from count_list_update[OF release(2), of "\<lambda>p. p = Queued" "Returned (run_with_semaphore run (batch ! i))"]
       count_list_update[OF release(2), of "\<lambda>p. p = InFlight" "Returned (run_with_semaphore run (batch ! i))"] release(3)
  have "int (length (filter (\<lambda>p. p = Queued) (phases s'))) = int (length (filter (\<lambda>p. p = Queued) (phases s)))"
    and "int (in_flight s') = int (in_flight s) - 1"
    by (simp_all add: release(1) in_flight_def)
  then show ?thesis unfolding gather_weight_def by linarith
qed

section \<open>Executing the batches\<close>

lemma process_run_with_semaphore:
  "process_result task (run_with_semaphore run task) = execute_single_task task (run task)"
  by (simp add: process_result_def run_with_semaphore_def)

lemma batch_store_Cons:
  "batch_store run (t # batch) m = batch_store run batch (m(id_task t \<mapsto> execute_single_task t (run t)))"
  by (simp add: batch_store_def)

lemma fold_record_result:
  "fold record_result (zip batch (map (run_with_semaphore run) batch)) (m, ex) =
     (batch_store run batch m, ex\<lparr>completed_tasks := batch_store run batch (completed_tasks ex)\<rparr>)"
proof (induction batch arbitrary: m ex)
  case Nil
  show ?case by (simp add: batch_store_def)
next
  case (Cons t batch)
  show ?case
    by (simp add: Cons.IH process_run_with_semaphore batch_store_Cons fun_upd_def)
qed

lemma dom_batch_store: "dom (batch_store run batch m) = dom m \<union> id_task ` set batch"
  by (induction batch arbitrary: m) (auto simp: batch_store_Cons batch_store_def)

lemma batch_store_other:
  "k \<notin> id_task ` set batch \<Longrightarrow> batch_store run batch m k = m k"
  by (induction batch arbitrary: m) (auto simp: batch_store_Cons batch_store_def)

lemma batch_store_member:
  "distinct (map id_task batch) \<Longrightarrow> t \<in> set batch \<Longrightarrow>
     batch_store run batch m (id_task t) = Some (execute_single_task t (run t))"
proof (induction batch arbitrary: m)
  case Nil
  then show ?case by simp
next
  case (Cons u batch)
  show ?case
  proof (cases "t = u")
    case True
    have "id_task u \<notin> id_task ` set batch" using Cons.prems(1) by simp
    then show ?thesis using True by (simp add: batch_store_Cons batch_store_other)
  next
    case False
    with Cons.prems have "t \<in> set batch" "distinct (map id_task batch)" by simp_all
    then show ?thesis by (simp add: batch_store_Cons Cons.IH)
  qed
qed

lemma all_store_Cons: "all_store run (b # bs) m = all_store run bs (batch_store run b m)"
  by (simp add: all_store_def)

lemma dom_all_store: "dom (all_store run bs m) = dom m \<union> id_task ` set (concat bs)"
  by (induction bs arbitrary: m) (auto simp: all_store_Cons all_store_def dom_batch_store)

lemma all_store_other:
  "k \<notin> id_task ` set (concat bs) \<Longrightarrow> all_store run bs m k = m k"
proof (induction bs arbitrary: m)
  case Nil
  show ?case by (simp add: all_store_def)
next
  case (Cons b bs)
  from Cons.prems have kb: "k \<notin> id_task ` set b" and kbs: "k \<notin> id_task ` set (concat bs)"
    by auto
  show ?case by (simp add: all_store_Cons Cons.IH[OF kbs] batch_store_other[OF kb])
qed

lemma all_store_member:
  "distinct (map id_task (concat bs)) \<Longrightarrow> t \<in> set (concat bs) \<Longrightarrow>
     all_store run bs m (id_task t) = Some (execute_single_task t (run t))"
proof (induction bs arbitrary: m)
  case Nil
  then show ?case by simp
next
  case (Cons b bs)
  from Cons.prems(1) have db: "distinct (map id_task b)" and dbs: "distinct (map id_task (concat bs))"
    and disj: "id_task ` set b \<inter> id_task ` set (concat bs) = {}"
    by auto
  show ?case
  proof (cases "t \<in> set (concat bs)")
    case True
    then show ?thesis by (simp add: all_store_Cons Cons.IH[OF dbs])
  next
    case False
    with Cons.prems(2) have tb: "t \<in> set b" by simp
    then have "id_task t \<notin> id_task ` set (concat bs)" using disj by blast
    then show ?thesis
      by (simp add: all_store_Cons all_store_other batch_store_member[OF db tb])
  qed
qed

lemma gather_batch_Some:
  "gather_batch sem run batch = Some rs \<Longrightarrow> rs = map (run_with_semaphore run) batch"
  by (simp add: gather_batch_def split: if_splits)

lemma without_progress_returns:
  "execute_without_progress_from run bs (m, ex) = Some (Inr (m', ex')) \<Longrightarrow>
     m' = all_store run bs m"
proof (induction bs arbitrary: m ex)
  case Nil
  then show ?case by (simp add: all_store_def)
next
  case (Cons b bs)
  from Cons.prems obtain sem where sem: "semaphore_new (max_parallel ex) = Inr sem"
    by (cases "semaphore_new (max_parallel ex)") simp_all
  with Cons.prems obtain rs where rs: "gather_batch sem run b = Some rs"
    by (cases "gather_batch sem run b") simp_all
  from gather_batch_Some[OF rs] have rs': "rs = map (run_with_semaphore run) b" .
  from Cons.prems sem rs rs'
  have "execute_without_progress_from run bs
          (batch_store run b m, ex\<lparr>completed_tasks := batch_store run b (completed_tasks ex)\<rparr>)
        = Some (Inr (m', ex'))"
    by (simp add: fold_record_result)
  from Cons.IH[OF this] show ?case by (simp add: all_store_Cons)
qed

lemma with_progress_returns:
  "execute_with_progress_from run n idx bs (m, ex) = Some (Inr (m', ex')) \<Longrightarrow>
     m' = all_store run bs m"
proof (induction bs arbitrary: m ex idx)
  case Nil
  then show ?case by (simp add: all_store_def)
next
  case (Cons b bs)
  let ?ex = "ex\<lparr>console := console ex @ [ExecutingBatch (idx + 1) n]\<rparr>"
  from Cons.prems obtain sem where sem: "semaphore_new (max_parallel ?ex) = Inr sem"
    by (cases "semaphore_new (max_parallel ?ex)") (simp_all add: Let_def)
  with Cons.prems obtain rs where rs: "gather_batch sem run b = Some rs"
    by (cases "gather_batch sem run b") (simp_all add: Let_def)
  from gather_batch_Some[OF rs] have rs': "rs = map (run_with_semaphore run) b" .
  from Cons.prems sem rs rs'
  have "execute_with_progress_from run n (idx + 1) bs
          (batch_store run b m, ?ex\<lparr>completed_tasks := batch_store run b (completed_tasks ?ex)\<rparr>)
        = Some (Inr (m', ex'))"
    by (simp add: fold_record_result Let_def)
  from Cons.IH[OF this] show ?case by (simp add: all_store_Cons)
qed

lemma without_progress_total:
  "0 < max_parallel ex \<Longrightarrow>
     \<exists>ex'. execute_without_progress_from run bs (m, ex) = Some (Inr (all_store run bs m, ex'))"
proof (induction bs arbitrary: m ex)
  case Nil
  show ?case by (simp add: all_store_def)
next
  case (Cons b bs)
  let ?ex = "ex\<lparr>completed_tasks := batch_store run b (completed_tasks ex)\<rparr>"
  have "0 < max_parallel ?ex" using Cons.prems by simp
  from Cons.IH[OF this, of "batch_store run b m"] Cons.prems
  show ?case
    by (simp add: semaphore_new_def gather_batch_def fold_record_result all_store_Cons)
qed

lemma with_progress_total:
  "0 < max_parallel ex \<Longrightarrow>
     \<exists>ex'. execute_with_progress_from run n idx bs (m, ex) = Some (Inr (all_store run bs m, ex'))"
proof (induction bs arbitrary: m ex idx)
  case Nil
  show ?case by (simp add: all_store_def)
next
  case (Cons b bs)
  let ?ex = "ex\<lparr>console := console ex @ [ExecutingBatch (idx + 1) n]\<rparr>"
  let ?ex' = "?ex\<lparr>completed_tasks := batch_store run b (completed_tasks ?ex)\<rparr>"
  have "0 < max_parallel ?ex'" using Cons.prems by simp
  from Cons.IH[OF this, of "idx + 1" "batch_store run b m"] Cons.prems
  show ?case
    by (simp add: semaphore_new_def gather_batch_def fold_record_result all_store_Cons Let_def)
qed


lemma resolve_dependencies_distinct:
  assumes d: "distinct (map id_task tasks)"
  shows "\<exists>bs ex'. resolve_dependencies ex tasks = Some (bs, ex')
           \<and> mset (concat bs) = mset tasks
           \<and> max_parallel ex' = max_parallel ex
           \<and> completed_tasks ex' = completed_tasks ex"
proof -
  from resolve_loop_distinct[OF d resolver_inv_init, of ex]
  obtain k where k: "resolve_loop tasks (resolve_init ex) = Some ((resolve_step tasks ^^ k) (resolve_init ex))"
    "\<not> resolve_cond tasks ((resolve_step tasks ^^ k) (resolve_init ex))"
    "resolver_inv tasks ((resolve_step tasks ^^ k) (resolve_init ex))"
    by blast
  from resolver_exit(2)[OF d k(3) k(2)] k(1) show ?thesis
    by (simp add: resolve_dependencies_def)
qed

lemma success_execute_single_task:
  "success (execute_single_task t r) \<longleftrightarrow> ending r = Completed"
  by (cases "ending r") (simp_all add: execute_single_task_def)

lemma task_id_execute_single_task [simp]:
  "task_id (execute_single_task t r) = id_task t"
  by (cases "ending r") (simp_all add: execute_single_task_def)

lemma error_execute_single_task:
  "ending r = RaisedException e \<Longrightarrow> error (execute_single_task t r) = Some e"
  "ending r = RaisedTimeoutError \<Longrightarrow> error (execute_single_task t r) = Some ''Task timeout''"
  "ending r = Completed \<Longrightarrow> error (execute_single_task t r) = None"
  by (simp_all add: execute_single_task_def)

text \<open>
  C5: for every task list with pairwise distinct ids (with or without a forced batch),
  the dictionary that \<^verbatim>\<open>execute_batch\<close> returns has exactly the submitted ids as its keys,
  and the entry of a task is the result of its own execution, failed or not.  The call
  does return a dictionary whenever \<^verbatim>\<open>max_parallel\<close> is positive.
\<close>

theorem complete_result_coverage:
  assumes d: "distinct (map id_task tasks)"
  shows "(\<forall>m ex'. execute_batch ex tasks show_progress run = Some (Inr (m, ex')) \<longrightarrow>
            dom m = set (map id_task tasks)
          \<and> (\<forall>t\<in>set tasks. m (id_task t) = Some (execute_single_task t (run t))))
       \<and> (0 < max_parallel ex \<longrightarrow>
            (\<exists>m ex'. execute_batch ex tasks show_progress run = Some (Inr (m, ex'))))"
proof -
  from resolve_dependencies_distinct[OF d, of ex]
  obtain bs ex1 where r: "resolve_dependencies ex tasks = Some (bs, ex1)"
    and ms: "mset (concat bs) = mset tasks" and mp: "max_parallel ex1 = max_parallel ex"
    by blast
  from ms have st: "set (concat bs) = set tasks" by (rule mset_eq_setD)
  from ms have "mset (map id_task (concat bs)) = mset (map id_task tasks)" by simp
  with d have dc: "distinct (map id_task (concat bs))" by (metis mset_eq_imp_distinct_iff)
  have eb: "execute_batch ex tasks show_progress run =
      (if show_progress then execute_with_progress ex1 bs run
       else execute_without_progress ex1 bs run)"
    by (simp add: execute_batch_def r)
  have part: "dom m = set (map id_task tasks)
          \<and> (\<forall>t\<in>set tasks. m (id_task t) = Some (execute_single_task t (run t)))"
    if "execute_batch ex tasks show_progress run = Some (Inr (m, ex'))" for m ex'
  proof -
    from that eb have "m = all_store run bs Map.empty"
      by (auto simp: execute_with_progress_def execute_without_progress_def
            dest: with_progress_returns without_progress_returns split: if_splits)
    then show ?thesis
      using st all_store_member[OF dc, of _ run Map.empty] by (simp add: dom_all_store)
  qed
  have tot: "\<exists>m ex'. execute_batch ex tasks show_progress run = Some (Inr (m, ex'))"
    if "0 < max_parallel ex"
  proof -
    from that mp have p: "0 < max_parallel ex1" by simp
    from with_progress_total[OF p, of run "length bs" 0 bs Map.empty]
         without_progress_total[OF p, of run bs Map.empty]
    show ?thesis
      unfolding eb execute_with_progress_def execute_without_progress_def by auto
  qed
  from part tot show ?thesis by blast
qed

theorem complete_result_coverage_witness:
  "\<exists>m ex'. execute_batch (executor_init 2)
        [example_task ''a'' 1 [], example_task ''b'' 3 [], example_task ''c'' 2 [''a'', ''b'']]
        True echo_run = Some (Inr (m, ex'))
      \<and> dom m = {''a'', ''b'', ''c''}
      \<and> success (the (m ''a'')) \<and> success (the (m ''b'')) \<and> success (the (m ''c''))"
proof -
  let ?ts = "[example_task ''a'' 1 [], example_task ''b'' 3 [], example_task ''c'' 2 [''a'', ''b'']]"
  have d: "distinct (map id_task ?ts)" by (simp add: example_task_def)
  have p: "0 < max_parallel (executor_init 2)" by (simp add: executor_init_def)
  note c = complete_result_coverage[OF d, of "executor_init 2" True echo_run]
  from c p obtain m ex' where e: "execute_batch (executor_init 2) ?ts True echo_run = Some (Inr (m, ex'))"
    by blast
  with c have dm: "dom m = set (map id_task ?ts)"
    and v: "\<forall>t\<in>set ?ts. m (id_task t) = Some (execute_single_task t (echo_run t))"
    by blast+
  from dm have 1: "dom m = {''a'', ''b'', ''c''}" by (simp add: example_task_def)
  from v have "m ''a'' = Some (execute_single_task (example_task ''a'' 1 []) (echo_run (example_task ''a'' 1 [])))"
    "m ''b'' = Some (execute_single_task (example_task ''b'' 3 []) (echo_run (example_task ''b'' 3 [])))"
    "m ''c'' = Some (execute_single_task (example_task ''c'' 2 [''a'', ''b'']) (echo_run (example_task ''c'' 2 [''a'', ''b''])))"
    by (simp_all add: example_task_def)
  then have 2: "success (the (m ''a'')) \<and> success (the (m ''b'')) \<and> success (the (m ''c''))"
    by (simp add: execute_single_task_def echo_run_def)
  from e 1 2 show ?thesis by blast
qed

text \<open>
  C7: for every list of batches with pairwise distinct ids, run with a positive
  \<^verbatim>\<open>max_parallel\<close>, with or without the progress display: every task of every batch gets
  the result of its own call of the capability, whatever happens to the other tasks.  A
  task whose call raises gets a failed result carrying the error text, a task whose call
  completes gets a successful one, so in each batch there are exactly as many failed
  results as calls that did not complete; and the batches after a failure are executed
  too.
\<close>

theorem failure_isolation:
  assumes d: "distinct (map id_task (concat task_batches))" and p: "0 < max_parallel ex"
  shows "\<exists>m ex1 ex2.
           execute_with_progress ex task_batches run = Some (Inr (m, ex1))
         \<and> execute_without_progress ex task_batches run = Some (Inr (m, ex2))
         \<and> (\<forall>batch\<in>set task_batches.
               length (filter (\<lambda>t. \<not> success (the (m (id_task t)))) batch)
                 = length (filter (\<lambda>t. ending (run t) \<noteq> Completed) batch)
             \<and> (\<forall>t\<in>set batch.
                   m (id_task t) = Some (execute_single_task t (run t))
                 \<and> (ending (run t) = Completed \<longrightarrow> success (execute_single_task t (run t)))
                 \<and> (\<forall>e. ending (run t) = RaisedException e \<longrightarrow>
                        \<not> success (execute_single_task t (run t))
                      \<and> error (execute_single_task t (run t)) = Some e
                      \<and> task_id (execute_single_task t (run t)) = id_task t)))"
proof -
  let ?m = "all_store run task_batches Map.empty"
  from with_progress_total[OF p, of run "length task_batches" 0 task_batches Map.empty]
  obtain ex1 where 1: "execute_with_progress ex task_batches run = Some (Inr (?m, ex1))"
    unfolding execute_with_progress_def by blast
  from without_progress_total[OF p, of run task_batches Map.empty]
  obtain ex2 where 2: "execute_without_progress ex task_batches run = Some (Inr (?m, ex2))"
    unfolding execute_without_progress_def by blast
  have mem: "?m (id_task t) = Some (execute_single_task t (run t))"
    if "batch \<in> set task_batches" "t \<in> set batch" for batch t
    using all_store_member[OF d, of t run Map.empty] that by auto
  have 3: "length (filter (\<lambda>t. \<not> success (the (?m (id_task t)))) batch)
         = length (filter (\<lambda>t. ending (run t) \<noteq> Completed) batch)"
    if b: "batch \<in> set task_batches" for batch
  proof -
    have "filter (\<lambda>t. \<not> success (the (?m (id_task t)))) batch
        = filter (\<lambda>t. ending (run t) \<noteq> Completed) batch"
      by (rule filter_cong[OF refl]) (simp add: mem[OF b] success_execute_single_task)
    then show ?thesis by simp
  qed
  have 4: "?m (id_task t) = Some (execute_single_task t (run t))
         \<and> (ending (run t) = Completed \<longrightarrow> success (execute_single_task t (run t)))
         \<and> (\<forall>e. ending (run t) = RaisedException e \<longrightarrow>
                \<not> success (execute_single_task t (run t))
              \<and> error (execute_single_task t (run t)) = Some e
              \<and> task_id (execute_single_task t (run t)) = id_task t)"
    if "batch \<in> set task_batches" "t \<in> set batch" for batch t
    using mem[OF that] by (simp add: success_execute_single_task error_execute_single_task)
  from 1 2 3 4 show ?thesis by blast
qed

theorem failure_isolation_witness:
  "\<exists>m ex1. execute_with_progress (executor_init 2)
        [[example_task ''t1'' 1 [], example_task ''t2'' 1 [], example_task ''t3'' 1 [],
          example_task ''t4'' 1 [], example_task ''t5'' 1 []],
         [example_task ''t6'' 1 [''t3'']]]
        (failing_run ''t3'') = Some (Inr (m, ex1))
      \<and> length (filter (\<lambda>t. \<not> success (the (m (id_task t))))
           [example_task ''t1'' 1 [], example_task ''t2'' 1 [], example_task ''t3'' 1 [],
            example_task ''t4'' 1 [], example_task ''t5'' 1 []]) = 1
      \<and> length (filter (\<lambda>t. success (the (m (id_task t))))
           [example_task ''t1'' 1 [], example_task ''t2'' 1 [], example_task ''t3'' 1 [],
            example_task ''t4'' 1 [], example_task ''t5'' 1 []]) = 4
      \<and> error (the (m ''t3'')) = Some ''boom''
      \<and> success (the (m ''t6''))"
proof -
  let ?b1 = "[example_task ''t1'' 1 [], example_task ''t2'' 1 [], example_task ''t3'' 1 [],
          example_task ''t4'' 1 [], example_task ''t5'' 1 []]"
  let ?b2 = "[example_task ''t6'' 1 [''t3'']]"
  have d: "distinct (map id_task (concat [?b1, ?b2]))" by (simp add: example_task_def)
  have p: "0 < max_parallel (executor_init 2)" by (simp add: executor_init_def)
  from failure_isolation[OF d p, of "failing_run ''t3''"]
  obtain m ex1 where e: "execute_with_progress (executor_init 2) [?b1, ?b2] (failing_run ''t3'') = Some (Inr (m, ex1))"
    and v: "\<forall>batch\<in>set [?b1, ?b2]. \<forall>t\<in>set batch.
              m (id_task t) = Some (execute_single_task t (failing_run ''t3'' t))"
    by blast
  from v have m: "m ''t1'' = Some (execute_single_task (example_task ''t1'' 1 []) (failing_run ''t3'' (example_task ''t1'' 1 [])))"
    "m ''t2'' = Some (execute_single_task (example_task ''t2'' 1 []) (failing_run ''t3'' (example_task ''t2'' 1 [])))"
    "m ''t3'' = Some (execute_single_task (example_task ''t3'' 1 []) (failing_run ''t3'' (example_task ''t3'' 1 [])))"
    "m ''t4'' = Some (execute_single_task (example_task ''t4'' 1 []) (failing_run ''t3'' (example_task ''t4'' 1 [])))"
    "m ''t5'' = Some (execute_single_task (example_task ''t5'' 1 []) (failing_run ''t3'' (example_task ''t5'' 1 [])))"
    "m ''t6'' = Some (execute_single_task (example_task ''t6'' 1 [''t3'']) (failing_run ''t3'' (example_task ''t6'' 1 [''t3''])))"
    by (simp_all add: example_task_def)
  have s: "success (the (m ''t1''))" "success (the (m ''t2''))" "\<not> success (the (m ''t3''))"
    "success (the (m ''t4''))" "success (the (m ''t5''))" "success (the (m ''t6''))"
    "error (the (m ''t3'')) = Some ''boom''"
    unfolding m by (simp_all add: execute_single_task_def failing_run_def echo_run_def example_task_def)
  have i: "id_task (example_task ''t1'' 1 []) = ''t1''" "id_task (example_task ''t2'' 1 []) = ''t2''"
    "id_task (example_task ''t3'' 1 []) = ''t3''" "id_task (example_task ''t4'' 1 []) = ''t4''"
    "id_task (example_task ''t5'' 1 []) = ''t5''"
    by (simp_all add: example_task_def)
  from e s show ?thesis by (intro exI[of _ m] exI[of _ ex1]) (simp add: i)
qed

section \<open>The batches the resolver emits\<close>

lemma placed_before_append:
  "k \<le> length bs \<Longrightarrow> placed_before (bs @ [b]) k = placed_before bs k"
  by (simp add: placed_before_def)

lemma placed_before_all: "placed_before bs (length bs) = set (map id_task (concat bs))"
  by (simp add: placed_before_def)

lemma forced_at_append: "k \<le> length bs \<Longrightarrow> forced_at tasks (bs @ [b]) k = forced_at tasks bs k"
  by (simp add: forced_at_def placed_before_append)

lemma history_inv_init: "history_inv tasks ex (resolve_init ex)"
  by (simp add: history_inv_def resolve_init_def)

lemma forced_completes:
  assumes d: "distinct (map id_task tasks)" and sub: "completed s \<subseteq> id_task ` set tasks"
    and f: "find_ready tasks (completed s) = []"
  shows "\<not> resolve_cond tasks (resolve_step tasks s)"
proof -
  have "set (next_batch tasks (completed s)) = {t \<in> set tasks. id_task t \<notin> completed s}"
    using f by (auto simp: next_batch_def remaining_tasks_def)
  then have "completed (resolve_step tasks s) = id_task ` set tasks"
    using sub by (auto simp: completed_step)
  moreover have "card (id_task ` set tasks) = length tasks"
    using d by (metis distinct_card length_map set_map)
  ultimately show ?thesis by (simp add: resolve_cond_def)
qed

lemma history_inv_step:
  assumes d: "distinct (map id_task tasks)" and inv: "resolver_inv tasks s"
    and h: "history_inv tasks ex s" and c: "resolve_cond tasks s"
  shows "history_inv tasks ex (resolve_step tasks s)"
proof -
  let ?bs = "batches s"
  let ?n = "length ?bs"
  let ?nb = "next_batch tasks (completed s)"
  have bs': "batches (resolve_step tasks s) = ?bs @ [?nb]" by (rule batches_step)
  have comp: "completed s = placed_before ?bs ?n"
    using inv by (simp add: resolver_inv_def placed_before_all)
  have sub: "completed s \<subseteq> id_task ` set tasks"
    using resolver_inv_subset[OF inv] by simp
  from h have h1: "\<And>k. k < ?n \<Longrightarrow> ?bs ! k = next_batch tasks (placed_before ?bs k)"
    and h2: "\<And>k. Suc k < ?n \<Longrightarrow> \<not> forced_at tasks ?bs k"
    and h3: "\<And>k. Suc k = ?n \<Longrightarrow> forced_at tasks ?bs k \<Longrightarrow> \<not> resolve_cond tasks s"
    and h4: "(\<forall>k<?n. \<not> forced_at tasks ?bs k) \<Longrightarrow> printed s = console ex"
    unfolding history_inv_def by blast+
  have old: "\<not> forced_at tasks ?bs k" if "k < ?n" for k
  proof (cases "Suc k < ?n")
    case True
    then show ?thesis by (rule h2)
  next
    case False
    with that have "Suc k = ?n" by simp
    from h3[OF this] c show ?thesis by blast
  qed
  then have pr: "printed s = console ex" using h4 by blast
  have a1: "(?bs @ [?nb]) ! k = next_batch tasks (placed_before (?bs @ [?nb]) k)"
    if "k < length (?bs @ [?nb])" for k
  proof (cases "k < ?n")
    case True
    then show ?thesis by (simp add: nth_append placed_before_append h1)
  next
    case False
    with that have "k = ?n" by simp
    then show ?thesis by (simp add: placed_before_append comp)
  qed
  have a2: "\<not> forced_at tasks (?bs @ [?nb]) k" if "Suc k < length (?bs @ [?nb])" for k
  proof -
    from that have "k < ?n" by simp
    then show ?thesis using old by (simp add: forced_at_append)
  qed
  have a3: "\<not> resolve_cond tasks (resolve_step tasks s) \<and>
           printed (resolve_step tasks s) = console ex @
             [CircularDependencyWarning (length (remaining_tasks tasks (placed_before (?bs @ [?nb]) k)))]"
    if "Suc k = length (?bs @ [?nb])" "forced_at tasks (?bs @ [?nb]) k" for k
  proof -
    from that(1) have k: "k = ?n" by simp
    with that(2) have "forced_at tasks ?bs ?n" by (simp add: forced_at_append)
    then have f: "find_ready tasks (completed s) = []"
      by (simp add: forced_at_def comp)
    from forced_completes[OF d sub f] f pr k show ?thesis
      by (simp add: printed_step placed_before_append comp)
  qed
  have a4: "printed (resolve_step tasks s) = console ex"
    if "\<forall>k<length (?bs @ [?nb]). \<not> forced_at tasks (?bs @ [?nb]) k"
  proof -
    from that have "\<not> forced_at tasks (?bs @ [?nb]) ?n" by simp
    then have "\<not> forced_at tasks ?bs ?n" by (simp add: forced_at_append)
    then have "find_ready tasks (completed s) \<noteq> []"
      by (simp add: forced_at_def comp)
    then show ?thesis using pr by (simp add: printed_step)
  qed
  show ?thesis
    unfolding history_inv_def bs' using a1 a2 a3 a4 by blast
qed

lemma resolve_loop_history:
  assumes d: "distinct (map id_task tasks)"
  shows "\<exists>s. resolve_loop tasks (resolve_init ex) = Some s
           \<and> \<not> resolve_cond tasks s \<and> resolver_inv tasks s \<and> history_inv tasks ex s
           \<and> length (batches s) \<le> length tasks \<and> [] \<notin> set (batches s)"
proof -
  let ?I = "\<lambda>s. resolver_inv tasks s \<and> history_inv tasks ex s
                \<and> length (batches s) + (length tasks - card (completed s)) \<le> length tasks
                \<and> [] \<notin> set (batches s)"
  have i0: "?I (resolve_init ex)"
    by (simp add: resolver_inv_init history_inv_init) (simp add: resolve_init_def)
  have "\<exists>k\<le>length tasks - card (completed (resolve_init ex)).
          \<not> resolve_cond tasks ((resolve_step tasks ^^ k) (resolve_init ex))
        \<and> (\<forall>j<k. resolve_cond tasks ((resolve_step tasks ^^ j) (resolve_init ex)))
        \<and> ?I ((resolve_step tasks ^^ k) (resolve_init ex))"
  proof (rule resolve_iterate[where I = ?I and m = "\<lambda>s. length tasks - card (completed s)", OF i0])
    fix s' assume i: "?I s'" and c: "resolve_cond tasks s'"
    then have ri: "resolver_inv tasks s'" and hi: "history_inv tasks ex s'" by simp_all
    have lt: "card (completed s') < card (completed (resolve_step tasks s'))"
      by (rule resolver_progress(1)[OF d ri c])
    have c': "card (completed s') < length tasks" using c by (simp add: resolve_cond_def)
    have "length (batches (resolve_step tasks s')) = Suc (length (batches s'))"
      by (simp add: batches_step)
    with i lt c' have "length (batches (resolve_step tasks s'))
        + (length tasks - card (completed (resolve_step tasks s'))) \<le> length tasks"
      by linarith
    moreover note resolver_inv_step[OF d ri] history_inv_step[OF d ri hi c] lt c'
    moreover have "[] \<notin> set (batches (resolve_step tasks s'))"
      using i resolver_progress(2)[OF d ri c] by (auto simp: batches_step)
    ultimately show "?I (resolve_step tasks s') \<and>
         length tasks - card (completed (resolve_step tasks s')) < length tasks - card (completed s')"
      by auto
  qed
  then obtain k where k: "\<not> resolve_cond tasks ((resolve_step tasks ^^ k) (resolve_init ex))"
    "\<forall>j<k. resolve_cond tasks ((resolve_step tasks ^^ j) (resolve_init ex))"
    "?I ((resolve_step tasks ^^ k) (resolve_init ex))" by blast
  from resolve_loop_funpow[OF k(1) k(2)] k(1) k(3) show ?thesis by auto
qed

text \<open>
  C6: when no unplaced task is ready (a cycle, or a dependency on an id that no task has),
  \<^verbatim>\<open>_resolve_dependencies\<close> should still terminate, emit all remaining tasks as one forced
  batch and print the warning.  With pairwise distinct ids it does: it returns, and a batch
  \<open>k\<close> built when nothing was ready is the last batch, holds all tasks not placed before
  (by priority), and the warning with their number is the one line added to the console.
  With a duplicate id it never returns, forced batch or not.
\<close>

theorem cycle_breaking:
  "(distinct (map id_task tasks) \<longrightarrow>
      (\<exists>bs ex'. resolve_dependencies ex tasks = Some (bs, ex')
         \<and> length bs \<le> length tasks
         \<and> mset (concat bs) = mset tasks
         \<and> (\<forall>k<length bs. find_ready tasks (placed_before bs k) = [] \<longrightarrow>
               Suc k = length bs
             \<and> bs ! k = sort_by_priority (remaining_tasks tasks (placed_before bs k))
             \<and> console ex' = console ex @
                 [CircularDependencyWarning (length (remaining_tasks tasks (placed_before bs k)))])))
 \<and> (\<not> distinct (map id_task tasks) \<longrightarrow> resolve_dependencies ex tasks = None)"
proof (intro conjI impI)
  assume d: "distinct (map id_task tasks)"
  from resolve_loop_history[OF d, of ex] obtain s where
    s: "resolve_loop tasks (resolve_init ex) = Some s" and nc: "\<not> resolve_cond tasks s"
    and ri: "resolver_inv tasks s" and hi: "history_inv tasks ex s"
    and len: "length (batches s) \<le> length tasks"
    by blast
  let ?bs = "batches s"
  have r: "resolve_dependencies ex tasks = Some (?bs, ex\<lparr>console := printed s\<rparr>)"
    by (simp add: resolve_dependencies_def s)
  have ms: "mset (concat ?bs) = mset tasks" by (rule resolver_exit(2)[OF d ri nc])
  have f: "Suc k = length ?bs
         \<and> ?bs ! k = sort_by_priority (remaining_tasks tasks (placed_before ?bs k))
         \<and> console (ex\<lparr>console := printed s\<rparr>) = console ex @
             [CircularDependencyWarning (length (remaining_tasks tasks (placed_before ?bs k)))]"
    if k: "k < length ?bs" and fr: "find_ready tasks (placed_before ?bs k) = []" for k
  proof -
    from fr have fa: "forced_at tasks ?bs k" by (simp add: forced_at_def)
    have "\<not> Suc k < length ?bs" using hi fa unfolding history_inv_def by blast
    with k have l: "Suc k = length ?bs" by simp
    from hi l fa have "printed s = console ex @
         [CircularDependencyWarning (length (remaining_tasks tasks (placed_before ?bs k)))]"
      unfolding history_inv_def by blast
    moreover from hi k have "?bs ! k = next_batch tasks (placed_before ?bs k)"
      unfolding history_inv_def by blast
    ultimately show ?thesis using l fr by (simp add: next_batch_def)
  qed
  from r len ms f
  show "\<exists>bs ex'. resolve_dependencies ex tasks = Some (bs, ex')
         \<and> length bs \<le> length tasks
         \<and> mset (concat bs) = mset tasks
         \<and> (\<forall>k<length bs. find_ready tasks (placed_before bs k) = [] \<longrightarrow>
               Suc k = length bs
             \<and> bs ! k = sort_by_priority (remaining_tasks tasks (placed_before bs k))
             \<and> console ex' = console ex @
                 [CircularDependencyWarning (length (remaining_tasks tasks (placed_before bs k)))])"
    by blast
next
  assume "\<not> distinct (map id_task tasks)"
  then show "resolve_dependencies ex tasks = None" by (rule resolve_dependencies_duplicate)
qed

theorem cycle_breaking_witness:
  "resolve_dependencies (executor_init 4)
     [example_task ''A'' 1 [''B''], example_task ''B'' 2 [''A'']]
   = Some ([[example_task ''B'' 2 [''A''], example_task ''A'' 1 [''B'']]],
           (executor_init 4)\<lparr>console := [CircularDependencyWarning 2]\<rparr>)
 \<and> resolve_dependencies (executor_init 4)
     [example_task ''x'' 1 [''y''], example_task ''x'' 2 [''y'']] = None"
proof -
  let ?ts = "[example_task ''A'' 1 [''B''], example_task ''B'' 2 [''A'']]"
  let ?dup = "[example_task ''x'' 1 [''y''], example_task ''x'' 2 [''y'']]"
  have d: "distinct (map id_task ?ts)" by (simp add: example_task_def)
  have nd: "\<not> distinct (map id_task ?dup)" by (simp add: example_task_def)
  from cycle_breaking[of ?dup "executor_init 4"] nd
  have 2: "resolve_dependencies (executor_init 4) ?dup = None" by blast
  from cycle_breaking[of ?ts "executor_init 4"] d
  obtain bs ex' where r: "resolve_dependencies (executor_init 4) ?ts = Some (bs, ex')"
    and ms: "mset (concat bs) = mset ?ts"
    and f: "\<forall>k<length bs. find_ready ?ts (placed_before bs k) = [] \<longrightarrow>
               Suc k = length bs
             \<and> bs ! k = sort_by_priority (remaining_tasks ?ts (placed_before bs k))
             \<and> console ex' = console (executor_init 4) @
                 [CircularDependencyWarning (length (remaining_tasks ?ts (placed_before bs k)))]"
    by blast
  from ms have "bs \<noteq> []" by auto
  then have 0: "0 < length bs" by simp
  have p0: "placed_before bs 0 = {}" by (simp add: placed_before_def)
  have fr: "find_ready ?ts (placed_before bs 0) = []"
    unfolding p0 by (simp add: find_ready_def example_task_def)
  have rem: "sort_by_priority (remaining_tasks ?ts (placed_before bs 0))
      = [example_task ''B'' 2 [''A''], example_task ''A'' 1 [''B'']]"
    unfolding p0 by (simp add: remaining_tasks_def sort_by_priority_def example_task_def)
  have n: "length (remaining_tasks ?ts (placed_before bs 0)) = 2"
    unfolding p0 by (simp add: remaining_tasks_def)
  from f 0 fr have l: "Suc 0 = length bs"
    and b: "bs ! 0 = sort_by_priority (remaining_tasks ?ts (placed_before bs 0))"
    and c: "console ex' = console (executor_init 4) @
        [CircularDependencyWarning (length (remaining_tasks ?ts (placed_before bs 0)))]"
    by blast+
  from l b rem have bs: "bs = [[example_task ''B'' 2 [''A''], example_task ''A'' 1 [''B'']]]"
    by (cases bs) simp_all
  from r have "ex' = (executor_init 4)\<lparr>console := console ex'\<rparr>"
    by (auto simp: resolve_dependencies_def split: option.splits)
  with c n have "ex' = (executor_init 4)\<lparr>console := [CircularDependencyWarning 2]\<rparr>"
    by (simp add: executor_init_def)
  with r bs 2 show ?thesis by simp
qed

section \<open>Dependency order\<close>

lemma dep_edges_iff:
  "(i, x) \<in> set (dep_edges tasks) \<longleftrightarrow> (\<exists>t\<in>set tasks. i = id_task t \<and> x \<in> set (dependencies t))"
  by (auto simp: dep_edges_def)

lemma acyclic_ready:
  assumes ac: "acyclic (set (dep_edges tasks))"
    and ex: "\<forall>t\<in>set tasks. set (dependencies t) \<subseteq> set (map id_task tasks)"
    and t: "t \<in> set tasks" "id_task t \<notin> done"
  shows "find_ready tasks done \<noteq> []"
proof -
  define R where "R = (set (dep_edges tasks))\<inverse>"
  define U where "U = {i \<in> id_task ` set tasks. i \<notin> done}"
  have wf: "wf R" unfolding R_def using ac by (simp add: finite_acyclic_wf_converse)
  have mem: "id_task t \<in> U" using t by (simp add: U_def)
  have "\<exists>z\<in>U. \<forall>y. (y, z) \<in> R \<longrightarrow> y \<notin> U"
  proof (rule wfE_min[OF wf mem])
    fix z assume "z \<in> U" and "\<And>y. (y, z) \<in> R \<Longrightarrow> y \<notin> U"
    then show ?thesis by blast
  qed
  then obtain z where z: "z \<in> U" and min: "\<And>y. (y, z) \<in> R \<Longrightarrow> y \<notin> U"
    by blast
  from z obtain u where u: "u \<in> set tasks" "id_task u = z" "id_task u \<notin> done"
    unfolding U_def by blast
  have "list_all (\<lambda>dep. dep \<in> done) (dependencies u)"
    unfolding list_all_iff
  proof
    fix x assume x: "x \<in> set (dependencies u)"
    with u have "(z, x) \<in> set (dep_edges tasks)" unfolding dep_edges_iff by blast
    then have "(x, z) \<in> R" by (simp add: R_def)
    then have "x \<notin> U" by (rule min)
    moreover have "x \<in> id_task ` set tasks" using ex u(1) x by auto
    ultimately show "x \<in> done" by (simp add: U_def)
  qed
  with u have "u \<in> set (find_ready tasks done)" by (simp add: find_ready_def)
  then show ?thesis by auto
qed

lemma placed_before_nth:
  assumes "x \<in> placed_before bs k"
  shows "\<exists>j<k. j < length bs \<and> x \<in> id_task ` set (bs ! j)"
proof -
  from assms obtain b where b: "b \<in> set (take k bs)" "x \<in> id_task ` set b"
    by (auto simp: placed_before_def)
  from b(1) obtain j where "j < length (take k bs)" "take k bs ! j = b"
    unfolding in_set_conv_nth by blast
  then have "j < k" "j < length bs" "bs ! j = b" by simp_all
  with b(2) show ?thesis by blast
qed

lemma resolve_step_ready:
  "find_ready tasks (completed s) = r \<Longrightarrow> r \<noteq> [] \<Longrightarrow>
     resolve_step tasks s =
       \<lparr>completed = completed s \<union> id_task ` set r, batches = batches s @ [sort_by_priority r],
        printed = printed s\<rparr>"
  by (simp add: resolve_step_def Let_def)

lemma sort_by_priority_single [simp]: "sort_by_priority [x] = [x]"
  by (simp add: sort_by_priority_def)

lemma find_ready_mset:
  "mset (find_ready tasks done) =
     filter_mset (\<lambda>task. id_task task \<notin> done \<and> list_all (\<lambda>dep. dep \<in> done) (dependencies task)) (mset tasks)"
  by (simp add: find_ready_def)

lemma chain_resolution:
  assumes ids: "id_task a \<noteq> id_task b" "id_task a \<noteq> id_task c" "id_task b \<noteq> id_task c"
    and deps: "dependencies a = []" "dependencies b = [id_task a]" "dependencies c = [id_task b]"
    and ts: "mset tasks = {#a, b, c#}"
  shows "resolve_dependencies ex tasks = Some ([[a], [b], [c]], ex)"
proof -
  let ?s0 = "resolve_init ex"
  let ?s1 = "\<lparr>completed = {id_task a}, batches = [[a]], printed = console ex\<rparr>"
  let ?s2 = "\<lparr>completed = {id_task a, id_task b}, batches = [[a], [b]], printed = console ex\<rparr>"
  let ?s3 = "\<lparr>completed = {id_task a, id_task b, id_task c}, batches = [[a], [b], [c]],
              printed = console ex\<rparr>"
  have len: "length tasks = 3"
    using ts by (metis size_mset size_add_mset size_empty numeral_3_eq_3)
  have "mset (find_ready tasks {}) = {#a#}"
    using ids deps by (simp add: find_ready_mset ts)
  then have f0: "find_ready tasks {} = [a]" by simp
  have "mset (find_ready tasks {id_task a}) = {#b#}"
    using ids deps by (simp add: find_ready_mset ts)
  then have f1: "find_ready tasks {id_task a} = [b]" by simp
  have "mset (find_ready tasks {id_task a, id_task b}) = {#c#}"
    using ids deps by (simp add: find_ready_mset ts)
  then have f2: "find_ready tasks {id_task a, id_task b} = [c]" by simp
  have s1: "resolve_step tasks ?s0 = ?s1"
    using resolve_step_ready[of tasks ?s0 "[a]"] f0 by (simp add: resolve_init_def)
  have s2: "resolve_step tasks ?s1 = ?s2"
    using resolve_step_ready[of tasks ?s1 "[b]"] f1 by (simp add: insert_commute)
  have s3: "resolve_step tasks ?s2 = ?s3"
    using resolve_step_ready[of tasks ?s2 "[c]"] f2 by (simp add: insert_commute)
  have c0: "resolve_cond tasks ?s0" by (simp add: resolve_cond_def resolve_init_def len)
  have c1: "resolve_cond tasks ?s1" by (simp add: resolve_cond_def len)
  have c2: "resolve_cond tasks ?s2" using ids by (simp add: resolve_cond_def len)
  have c3: "\<not> resolve_cond tasks ?s3" using ids by (simp add: resolve_cond_def len)
  have "resolve_loop tasks ?s3 = Some ?s3" using c3 by (subst resolve_loop.simps) simp
  then have "resolve_loop tasks ?s2 = Some ?s3" using c2 s3 by (subst resolve_loop.simps) simp
  then have "resolve_loop tasks ?s1 = Some ?s3" using c1 s2 by (subst resolve_loop.simps) simp
  then have "resolve_loop tasks ?s0 = Some ?s3" using c0 s1 by (subst resolve_loop.simps) simp
  then show ?thesis by (simp add: resolve_dependencies_def)
qed

text \<open>
  C1: for every task list with pairwise distinct ids, no self-dependency, every dependency
  naming a task of the list, and an acyclic dependency relation, \<^verbatim>\<open>_resolve_dependencies\<close>
  returns batches that hold every task once, prints nothing, and places every dependency
  of a task of batch \<open>k\<close> in a batch \<open>j < k\<close>.  In particular, for three tasks \<open>a\<close>,
  \<open>b\<close>, \<open>c\<close> with distinct ids where \<open>b\<close> depends on \<open>a\<close> and \<open>c\<close> on \<open>b\<close>, given in any
  order, the batches are exactly \<open>[a]\<close>, \<open>[b]\<close>, \<open>[c]\<close>.
\<close>

theorem dependency_order:
  "(distinct (map id_task tasks)
      \<and> (\<forall>t\<in>set tasks. id_task t \<notin> set (dependencies t))
      \<and> (\<forall>t\<in>set tasks. set (dependencies t) \<subseteq> set (map id_task tasks))
      \<and> acyclic (set (dep_edges tasks)) \<longrightarrow>
      (\<exists>bs. resolve_dependencies ex tasks = Some (bs, ex)
         \<and> mset (concat bs) = mset tasks
         \<and> (\<forall>k<length bs. \<forall>t\<in>set (bs ! k). \<forall>x\<in>set (dependencies t).
               \<exists>j<k. x \<in> id_task ` set (bs ! j))))
 \<and> (id_task a \<noteq> id_task b \<and> id_task a \<noteq> id_task c \<and> id_task b \<noteq> id_task c
      \<and> dependencies a = [] \<and> dependencies b = [id_task a] \<and> dependencies c = [id_task b]
      \<and> mset tasks = {#a, b, c#} \<longrightarrow>
      resolve_dependencies ex tasks = Some ([[a], [b], [c]], ex))"
proof (intro conjI impI)
  assume "id_task a \<noteq> id_task b \<and> id_task a \<noteq> id_task c \<and> id_task b \<noteq> id_task c
      \<and> dependencies a = [] \<and> dependencies b = [id_task a] \<and> dependencies c = [id_task b]
      \<and> mset tasks = {#a, b, c#}"
  then show "resolve_dependencies ex tasks = Some ([[a], [b], [c]], ex)"
    using chain_resolution by blast
next
  assume a: "distinct (map id_task tasks)
      \<and> (\<forall>t\<in>set tasks. id_task t \<notin> set (dependencies t))
      \<and> (\<forall>t\<in>set tasks. set (dependencies t) \<subseteq> set (map id_task tasks))
      \<and> acyclic (set (dep_edges tasks))"
  then have d: "distinct (map id_task tasks)"
    and ex: "\<forall>t\<in>set tasks. set (dependencies t) \<subseteq> set (map id_task tasks)"
    and ac: "acyclic (set (dep_edges tasks))" by blast+
  from resolve_loop_history[OF d, of ex] obtain s where
    s: "resolve_loop tasks (resolve_init ex) = Some s" and nc: "\<not> resolve_cond tasks s"
    and ri: "resolver_inv tasks s" and hi: "history_inv tasks ex s"
    and ne: "[] \<notin> set (batches s)"
    by blast
  let ?bs = "batches s"
  have nb: "?bs ! k = next_batch tasks (placed_before ?bs k)" if "k < length ?bs" for k
    using hi that unfolding history_inv_def by blast
  have nf: "find_ready tasks (placed_before ?bs k) \<noteq> []" if k: "k < length ?bs" for k
  proof -
    from ne k have "?bs ! k \<noteq> []" by (metis nth_mem)
    then obtain t where "t \<in> set (next_batch tasks (placed_before ?bs k))"
      using nb[OF k] by (metis last_in_set)
    then have "t \<in> set tasks" "id_task t \<notin> placed_before ?bs k"
      using set_next_batch_subset by blast+
    then show ?thesis by (rule acyclic_ready[OF ac ex])
  qed
  then have "\<forall>k<length ?bs. \<not> forced_at tasks ?bs k" by (simp add: forced_at_def)
  with hi have "printed s = console ex" unfolding history_inv_def by blast
  then have r: "resolve_dependencies ex tasks = Some (?bs, ex)"
    by (simp add: resolve_dependencies_def s)
  have ms: "mset (concat ?bs) = mset tasks" by (rule resolver_exit(2)[OF d ri nc])
  have ord: "\<exists>j<k. x \<in> id_task ` set (?bs ! j)"
    if k: "k < length ?bs" and t: "t \<in> set (?bs ! k)" and x: "x \<in> set (dependencies t)" for k t x
  proof -
    from t nb[OF k] nf[OF k] have "t \<in> set (find_ready tasks (placed_before ?bs k))"
      by (simp add: next_batch_def)
    then have "list_all (\<lambda>dep. dep \<in> placed_before ?bs k) (dependencies t)"
      by (simp add: find_ready_def)
    with x have "x \<in> placed_before ?bs k" by (simp add: list_all_iff)
    from placed_before_nth[OF this] show ?thesis by blast
  qed
  from r ms ord
  show "\<exists>bs. resolve_dependencies ex tasks = Some (bs, ex)
         \<and> mset (concat bs) = mset tasks
         \<and> (\<forall>k<length bs. \<forall>t\<in>set (bs ! k). \<forall>x\<in>set (dependencies t).
               \<exists>j<k. x \<in> id_task ` set (bs ! j))"
    by blast
qed

theorem dependency_order_witness:
  "resolve_dependencies (executor_init 4)
     [example_task ''C'' 1 [''B''], example_task ''A'' 1 [], example_task ''B'' 1 [''A'']]
   = Some ([[example_task ''A'' 1 []], [example_task ''B'' 1 [''A'']], [example_task ''C'' 1 [''B'']]],
           executor_init 4)
 \<and> (\<exists>bs. resolve_dependencies (executor_init 4)
       [example_task ''C'' 1 [''B''], example_task ''A'' 1 [], example_task ''B'' 1 [''A'']]
       = Some (bs, executor_init 4)
     \<and> (\<forall>k<length bs. \<forall>t\<in>set (bs ! k). \<forall>x\<in>set (dependencies t).
            \<exists>j<k. x \<in> id_task ` set (bs ! j)))"
proof -
  let ?A = "example_task ''A'' 1 []"
  let ?B = "example_task ''B'' 1 [''A'']"
  let ?C = "example_task ''C'' 1 [''B'']"
  let ?ts = "[?C, ?A, ?B]"
  note inst = dependency_order[where tasks = ?ts and a = ?A and b = ?B and c = ?C
      and ex = "executor_init 4"]
  have h2: "id_task ?A \<noteq> id_task ?B \<and> id_task ?A \<noteq> id_task ?C \<and> id_task ?B \<noteq> id_task ?C
      \<and> dependencies ?A = [] \<and> dependencies ?B = [id_task ?A] \<and> dependencies ?C = [id_task ?B]
      \<and> mset ?ts = {#?A, ?B, ?C#}"
    by (simp add: example_task_def)
  have edges: "set (dep_edges ?ts) = {(''C'', ''B''), (''B'', ''A'')}"
    by (simp add: dep_edges_def example_task_def)
  have "set (dep_edges ?ts) \<subseteq> measure (\<lambda>i. if i = ''C'' then 0 else if i = ''B'' then 1 else (2::nat))"
    unfolding edges by simp
  then have "wf (set (dep_edges ?ts))" by (rule wf_subset[OF wf_measure])
  then have ac: "acyclic (set (dep_edges ?ts))" by (rule wf_acyclic)
  have h1: "distinct (map id_task ?ts)
      \<and> (\<forall>t\<in>set ?ts. id_task t \<notin> set (dependencies t))
      \<and> (\<forall>t\<in>set ?ts. set (dependencies t) \<subseteq> set (map id_task ?ts))
      \<and> acyclic (set (dep_edges ?ts))"
    using ac by (simp add: example_task_def)
  from inst h2 have 2: "resolve_dependencies (executor_init 4) ?ts
      = Some ([[?A], [?B], [?C]], executor_init 4)" by blast
  from inst h1 have 1: "\<exists>bs. resolve_dependencies (executor_init 4) ?ts = Some (bs, executor_init 4)
     \<and> (\<forall>k<length bs. \<forall>t\<in>set (bs ! k). \<forall>x\<in>set (dependencies t).
            \<exists>j<k. x \<in> id_task ` set (bs ! j))" by blast
  from 1 2 show ?thesis by blast
qed

end
